theory Spec2Isabelle
  imports Main "HOL-Library.Word"
begin

unbundle bit_operations_syntax

section \<open>CoAP header options (coap/option.py)\<close>

text \<open>
  The module is Python 2 code: a \<open>str\<close> is a sequence of bytes, \<open>ord\<close> reads a byte as
  an integer in 0..255, \<open>chr\<close> builds a byte from such an integer, integers are unbounded
  and \<open>/\<close> on integers is floor division.  Exceptions are values of type \<open>error\<close>; a
  function that can raise returns \<open>error + 'a\<close> with \<open>Inl\<close> the exception.
\<close>

subsection \<open>Bytes, exceptions, the struct module\<close>

type_synonym byte = "8 word"
type_synonym bytes = "byte list"

datatype error = ValueError | IndexError | StructError

definition ord_py :: "byte \<Rightarrow> int" where
  "ord_py b = uint b"

text \<open>The byte with ordinal \<open>i\<close>, for \<open>i\<close> in 0..255.\<close>

definition byte_of :: "int \<Rightarrow> byte" where
  "byte_of i = word_of_int i"

text \<open>\<open>chr(i)\<close> raises ValueError unless \<open>i\<close> is in \<open>range(256)\<close>.\<close>

definition chr_py :: "int \<Rightarrow> error + byte" where
  "chr_py i = (if 0 \<le> i \<and> i < 256 then Inr (byte_of i) else Inl ValueError)"

text \<open>\<open>struct.pack('!B', v)\<close>: one byte, struct.error outside 0..255.\<close>

definition pack_B :: "int \<Rightarrow> error + bytes" where
  "pack_B v = (if 0 \<le> v \<and> v < 256 then Inr [byte_of v] else Inl StructError)"

text \<open>\<open>struct.pack('!H', v)\<close>: two bytes, big-endian, struct.error outside 0..65535.\<close>

definition pack_H :: "int \<Rightarrow> error + bytes" where
  "pack_H v = (if 0 \<le> v \<and> v < 65536
     then Inr [byte_of (v div 256), byte_of (v mod 256)]
     else Inl StructError)"

text \<open>\<open>struct.pack('!L', v)\<close>: four bytes, big-endian, struct.error outside 0..2^32-1.\<close>

definition pack_L :: "int \<Rightarrow> error + bytes" where
  "pack_L v = (if 0 \<le> v \<and> v < 4294967296
     then Inr [byte_of (v div 16777216), byte_of (v div 65536 mod 256),
               byte_of (v div 256 mod 256), byte_of (v mod 256)]
     else Inl StructError)"

text \<open>\<open>struct.unpack('!H', s)[0]\<close>: struct.error unless \<open>s\<close> has exactly two bytes.\<close>

fun unpack_H :: "bytes \<Rightarrow> error + int" where
  "unpack_H [hi, lo] = Inr (ord_py hi * 256 + ord_py lo)"
| "unpack_H _ = Inl StructError"

subsection \<open>Extended field values\<close>

text \<open>\<open>Options.readExtendedFieldValue(value, rawdata)\<close>.  \<open>rawdata[0]\<close> on an empty string
  raises IndexError; the slices \<open>rawdata[:2]\<close>, \<open>rawdata[1:]\<close>, \<open>rawdata[2:]\<close> never raise.\<close>

definition readExtendedFieldValue :: "int \<Rightarrow> bytes \<Rightarrow> error + (int \<times> bytes)" where
  "readExtendedFieldValue v rawdata =
     (if v \<ge> 0 \<and> v < 13 then Inr (v, rawdata)
      else if v = 13 then
        (case rawdata of
           [] \<Rightarrow> Inl IndexError
         | b # rest \<Rightarrow> Inr (ord_py b + 13, rest))
      else if v = 14 then
        (case unpack_H (take 2 rawdata) of
           Inl e \<Rightarrow> Inl e
         | Inr u \<Rightarrow> Inr (u + 269, drop 2 rawdata))
      else Inl ValueError)"

text \<open>\<open>Options.writeExtendedFieldValue(value)\<close>: the nibble and the extension bytes.\<close>

definition writeExtendedFieldValue :: "int \<Rightarrow> error + (int \<times> bytes)" where
  "writeExtendedFieldValue v =
     (if v \<ge> 0 \<and> v < 13 then Inr (v, [])
      else if v \<ge> 13 \<and> v < 269 then
        (case pack_B (v - 13) of Inl e \<Rightarrow> Inl e | Inr s \<Rightarrow> Inr (13, s))
      else if v \<ge> 269 \<and> v < 65804 then
        (case pack_H (v - 269) of Inl e \<Rightarrow> Inl e | Inr s \<Rightarrow> Inr (14, s))
      else Inl ValueError)"

subsection \<open>Option values\<close>

text \<open>\<open>int.bit_length()\<close>: the number of bits of the absolute value, 0 for 0.\<close>

fun bits_of :: "nat \<Rightarrow> nat" where
  "bits_of n = (if n = 0 then 0 else Suc (bits_of (n div 2)))"

declare bits_of.simps [simp del]

definition bit_length :: "int \<Rightarrow> int" where
  "bit_length i = int (bits_of (nat \<bar>i\<bar>))"

text \<open>\<open>BlockOption.BlockwiseTuple\<close>, the named tuple \<open>(num, m, szx)\<close>.  The flag \<open>m\<close> is a
  bool here: the decoder stores \<open>bool(...)\<close>, and the constructor's default \<open>None\<close> is
  overwritten by \<open>decode\<close> before the option is stored.\<close>

datatype blockwise = BlockwiseTuple (num: int) (m: bool) (szx: int)

text \<open>The four option classes, each with its number and its value.  The value of a
  \<open>UintOption\<close> is an integer or \<open>None\<close>, which the Content-Format setter can store.\<close>

datatype pyoption =
    OpaqueOption int bytes
  | StringOption int bytes
  | UintOption int "int option"
  | BlockOption int blockwise

fun number :: "pyoption \<Rightarrow> int" where
  "number (OpaqueOption n v) = n"
| "number (StringOption n v) = n"
| "number (UintOption n v) = n"
| "number (BlockOption n v) = n"

text \<open>\<open>s.lstrip(chr(0))\<close>.\<close>

definition lstrip0 :: "bytes \<Rightarrow> bytes" where
  "lstrip0 s = dropWhile (\<lambda>b. b = 0) s"

text \<open>The loop of \<open>UintOption.decode\<close> and \<open>BlockOption.decode\<close>:
  \<open>value = (value * 256) + ord(byte)\<close> for each byte, from 0.\<close>

definition accumulate :: "bytes \<Rightarrow> int" where
  "accumulate rawdata = foldl (\<lambda>v byte. (v * 256) + ord_py byte) 0 rawdata"

text \<open>The \<open>encode\<close> method of each class; \<open>x << 4\<close> is \<open>push_bit 4 x\<close> and \<open>x >> 4\<close> is
  \<open>drop_bit 4 x\<close>.  \<open>struct.pack("!L", None)\<close> raises struct.error.
  \<open>True * 0x08\<close> is 8 and \<open>False * 0x08\<close> is 0.\<close>

fun Option_encode :: "pyoption \<Rightarrow> error + bytes" where
  "Option_encode (OpaqueOption n v) = Inr v"
| "Option_encode (StringOption n v) = Inr v"
| "Option_encode (UintOption n v) =
     (case v of
        None \<Rightarrow> Inl StructError
      | Some i \<Rightarrow> (case pack_L i of Inl e \<Rightarrow> Inl e | Inr rawdata \<Rightarrow> Inr (lstrip0 rawdata)))"
| "Option_encode (BlockOption n v) =
     (let as_integer = push_bit 4 (num v) + ((if m v then 1 else 0) * 0x08) + szx v
      in case pack_L as_integer of Inl e \<Rightarrow> Inl e | Inr rawdata \<Rightarrow> Inr (lstrip0 rawdata))"

text \<open>The \<open>decode\<close> method of each class: the option with its value replaced.\<close>

fun Option_decode :: "pyoption \<Rightarrow> bytes \<Rightarrow> pyoption" where
  "Option_decode (OpaqueOption n v) rawdata = OpaqueOption n rawdata"
| "Option_decode (StringOption n v) rawdata = StringOption n rawdata"
| "Option_decode (UintOption n v) rawdata = UintOption n (Some (accumulate rawdata))"
| "Option_decode (BlockOption n v) rawdata =
     (let as_integer = accumulate rawdata
      in BlockOption n (BlockwiseTuple (drop_bit 4 as_integer) (as_integer AND 0x08 \<noteq> 0)
                                        (as_integer AND 0x07)))"

text \<open>The \<open>length\<close> property of each class.  In Python 2 \<open>None > 0\<close> is False, and \<open>/\<close>
  on integers is floor division.\<close>

fun Option_length :: "pyoption \<Rightarrow> int" where
  "Option_length (OpaqueOption n v) = int (length v)"
| "Option_length (StringOption n v) = int (length v)"
| "Option_length (UintOption n v) =
     (case v of
        None \<Rightarrow> 0
      | Some i \<Rightarrow> if i > 0 then (bit_length i - 1) div 8 + 1 else 0)"
| "Option_length (BlockOption n v) = (bit_length (num v) + 3) div 8 + 1"

subsection \<open>The registry\<close>

datatype option_class = OpaqueClass | StringClass | UintClass | BlockClass

text \<open>\<open>option_formats\<close>, the dictionary from option numbers to option classes.\<close>

definition option_formats :: "(int \<times> option_class) list" where
  "option_formats =
     [(3, StringClass), (6, UintClass), (7, UintClass), (8, StringClass),
      (11, StringClass), (12, UintClass), (14, UintClass), (15, StringClass),
      (17, UintClass), (20, StringClass), (23, BlockClass), (27, BlockClass),
      (28, UintClass), (35, StringClass), (39, StringClass), (60, UintClass)]"

text \<open>\<open>option_formats.get(option_number, OpaqueOption)\<close>.\<close>

definition option_formats_get :: "int \<Rightarrow> option_class" where
  "option_formats_get option_number =
     (case map_of option_formats option_number of None \<Rightarrow> OpaqueClass | Some cls \<Rightarrow> cls)"

text \<open>\<open>cls(option_number)\<close>: the constructor with its default value.\<close>

fun construct :: "option_class \<Rightarrow> int \<Rightarrow> pyoption" where
  "construct OpaqueClass n = OpaqueOption n []"
| "construct StringClass n = StringOption n []"
| "construct UintClass n = UintOption n (Some 0)"
| "construct BlockClass n = BlockOption n (BlockwiseTuple 0 False 0)"

subsection \<open>The option set\<close>

text \<open>\<open>self._options\<close>, a dictionary from option numbers to lists of options, as an
  association list with one entry for each key.\<close>

type_synonym options = "(int \<times> pyoption list) list"

text \<open>\<open>d.setdefault(k, []).append(x)\<close>.\<close>

fun setdefault_append :: "options \<Rightarrow> int \<Rightarrow> pyoption \<Rightarrow> options" where
  "setdefault_append [] k x = [(k, [x])]"
| "setdefault_append ((k', bucket) # d) k x =
     (if k' = k then (k', bucket @ [x]) # d else (k', bucket) # setdefault_append d k x)"

definition addOption :: "options \<Rightarrow> pyoption \<Rightarrow> options" where
  "addOption opts opt = setdefault_append opts (number opt) opt"

definition deleteOption :: "options \<Rightarrow> int \<Rightarrow> options" where
  "deleteOption opts n =
     (if map_of opts n \<noteq> None then filter (\<lambda>(k, bucket). k \<noteq> n) opts else opts)"

definition getOption :: "options \<Rightarrow> int \<Rightarrow> pyoption list option" where
  "getOption opts n = map_of opts n"

text \<open>\<open>optionList\<close>: the buckets sorted by the number of their first option (\<open>sorted\<close> is
  stable), chained.  \<open>x[0]\<close> raises IndexError on an empty bucket.\<close>

definition optionList :: "options \<Rightarrow> error + pyoption list" where
  "optionList opts =
     (if \<exists>bucket \<in> set (map snd opts). bucket = [] then Inl IndexError
      else Inr (concat (sort_key (\<lambda>x. number (hd x)) (map snd opts))))"

text \<open>The loop of \<open>Options.encode\<close>, with \<open>data\<close> the bytes appended so far.\<close>

fun encode_loop :: "bytes \<Rightarrow> int \<Rightarrow> pyoption list \<Rightarrow> error + bytes" where
  "encode_loop data current_opt_num [] = Inr data"
| "encode_loop data current_opt_num (opt # option_list) =
     (case writeExtendedFieldValue (number opt - current_opt_num) of
        Inl e \<Rightarrow> Inl e
      | Inr (delta, extended_delta) \<Rightarrow>
     (case writeExtendedFieldValue (Option_length opt) of
        Inl e \<Rightarrow> Inl e
      | Inr (len, extended_length) \<Rightarrow>
     (case chr_py (push_bit 4 (delta AND 0x0F) + (len AND 0x0F)) of
        Inl e \<Rightarrow> Inl e
      | Inr header \<Rightarrow>
     (case Option_encode opt of
        Inl e \<Rightarrow> Inl e
      | Inr v \<Rightarrow>
          encode_loop (data @ [header] @ extended_delta @ extended_length @ v)
            (number opt) option_list))))"

definition encode :: "options \<Rightarrow> error + bytes" where
  "encode opts =
     (case optionList opts of
        Inl e \<Rightarrow> Inl e
      | Inr option_list \<Rightarrow> encode_loop [] 0 option_list)"

text \<open>One pass of the loop of \<open>Options.decode\<close> on data that does not start with the
  payload marker: the option read and the data after it.\<close>

definition decode_entry :: "int \<Rightarrow> bytes \<Rightarrow> error + (pyoption \<times> bytes)" where
  "decode_entry option_number rawdata =
     (let dllen = ord_py (hd rawdata);
          delta = drop_bit 4 (dllen AND 0xF0);
          len = dllen AND 0x0F
      in case readExtendedFieldValue delta (tl rawdata) of
           Inl e \<Rightarrow> Inl e
         | Inr (delta, rawdata1) \<Rightarrow>
        (case readExtendedFieldValue len rawdata1 of
           Inl e \<Rightarrow> Inl e
         | Inr (len, rawdata2) \<Rightarrow>
             let option_number = option_number + delta;
                 opt = construct (option_formats_get option_number) option_number
             in Inr (Option_decode opt (take (nat len) rawdata2), drop (nat len) rawdata2)))"

lemma readExtendedFieldValue_shorter:
  "readExtendedFieldValue v rawdata = Inr (v', rest) \<Longrightarrow> length rest \<le> length rawdata"
  by (auto simp: readExtendedFieldValue_def split: if_splits list.splits sum.splits)

lemma decode_entry_shorter:
  "rawdata \<noteq> [] \<Longrightarrow> decode_entry n rawdata = Inr (opt, rest) \<Longrightarrow> length rest < length rawdata"
  by (cases rawdata)
     (auto simp: decode_entry_def Let_def split: sum.splits prod.splits
           dest!: readExtendedFieldValue_shorter)

text \<open>\<open>Options.decode\<close>: the option set after the call, and the payload returned or the
  exception raised.  The options read before an exception stay in the set.\<close>

function decode_loop :: "int \<Rightarrow> options \<Rightarrow> bytes \<Rightarrow> options \<times> (error + bytes)" where
  "decode_loop option_number opts rawdata =
     (if length rawdata > 0 then
        if ord_py (hd rawdata) = 0xFF then (opts, Inr (tl rawdata))
        else (case decode_entry option_number rawdata of
                Inl e \<Rightarrow> (opts, Inl e)
              | Inr (opt, rest) \<Rightarrow> decode_loop (number opt) (addOption opts opt) rest)
      else (opts, Inr []))"
  by pat_completeness auto
termination
  by (relation "measure (\<lambda>(n, opts, rawdata). length rawdata)")
     (auto dest: decode_entry_shorter)

declare decode_loop.simps [simp del]

definition decode :: "options \<Rightarrow> bytes \<Rightarrow> options \<times> (error + bytes)" where
  "decode opts rawdata = decode_loop 0 opts rawdata"


subsection \<open>Accessors\<close>

text \<open>The option numbers that the module takes from \<open>constants\<close>, which is imported with
  \<open>from constants import *\<close>: the accessors take them as a parameter.\<close>

record constants =
  URI_PATH :: int
  URI_QUERY :: int
  LOCATION_PATH :: int
  BLOCK1 :: int
  BLOCK2 :: int
  CONTENT_FORMAT :: int
  ETAG :: int
  OBSERVE :: int
  ACCEPT :: int

text \<open>The argument of a path-like setter: a string (a \<open>basestring\<close>), or a list or tuple
  of segments, each a string, so that \<open>str(segment)\<close> is the segment.\<close>

datatype segments = Basestring bytes | Segments "bytes list"

text \<open>The \<open>value\<close> attribute that the getters return, and \<open>None\<close>.\<close>

datatype pyvalue = StrValue bytes | IntValue int | BlockValue blockwise | NoneValue

fun value_of :: "pyoption \<Rightarrow> pyvalue" where
  "value_of (OpaqueOption n v) = StrValue v"
| "value_of (StringOption n v) = StrValue v"
| "value_of (UintOption n v) = (case v of None \<Rightarrow> NoneValue | Some i \<Rightarrow> IntValue i)"
| "value_of (BlockOption n v) = BlockValue v"

text \<open>\<open>for segment in segments: self.addOption(StringOption(number, str(segment)))\<close>.\<close>

definition add_segments :: "int \<Rightarrow> bytes list \<Rightarrow> options \<Rightarrow> options" where
  "add_segments n segs opts = foldl (\<lambda>opts segment. addOption opts (StringOption n segment)) opts segs"

definition setUriPath :: "constants \<Rightarrow> segments \<Rightarrow> options \<Rightarrow> error + options" where
  "setUriPath c segs opts =
     (case segs of
        Basestring s \<Rightarrow> Inl ValueError
      | Segments ss \<Rightarrow> Inr (add_segments (URI_PATH c) ss (deleteOption opts (URI_PATH c))))"

definition setUriQuery :: "constants \<Rightarrow> segments \<Rightarrow> options \<Rightarrow> error + options" where
  "setUriQuery c segs opts =
     (case segs of
        Basestring s \<Rightarrow> Inl ValueError
      | Segments ss \<Rightarrow> Inr (add_segments (URI_QUERY c) ss (deleteOption opts (URI_QUERY c))))"

definition setLocationPath :: "constants \<Rightarrow> segments \<Rightarrow> options \<Rightarrow> error + options" where
  "setLocationPath c segs opts =
     (case segs of
        Basestring s \<Rightarrow> Inl ValueError
      | Segments ss \<Rightarrow>
          Inr (add_segments (LOCATION_PATH c) ss (deleteOption opts (LOCATION_PATH c))))"

text \<open>The getters of the path-like options: the values of the bucket, in order.\<close>

definition segment_list :: "pyoption list option \<Rightarrow> pyvalue list" where
  "segment_list bucket = (case bucket of None \<Rightarrow> [] | Some segs \<Rightarrow> map value_of segs)"

definition getUriPath :: "constants \<Rightarrow> options \<Rightarrow> pyvalue list" where
  "getUriPath c opts = segment_list (getOption opts (URI_PATH c))"

definition getUriQuery :: "constants \<Rightarrow> options \<Rightarrow> pyvalue list" where
  "getUriQuery c opts = segment_list (getOption opts (URI_QUERY c))"

definition getLocationPath :: "constants \<Rightarrow> options \<Rightarrow> pyvalue list" where
  "getLocationPath c opts = segment_list (getOption opts (LOCATION_PATH c))"

text \<open>The single-valued getters: \<open>bucket[0].value\<close>, or \<open>None\<close> without a bucket.
  \<open>bucket[0]\<close> raises IndexError on an empty bucket.\<close>

definition first_value :: "pyoption list option \<Rightarrow> error + pyvalue" where
  "first_value bucket =
     (case bucket of
        None \<Rightarrow> Inr NoneValue
      | Some [] \<Rightarrow> Inl IndexError
      | Some (opt # rest) \<Rightarrow> Inr (value_of opt))"

definition setBlock2 :: "constants \<Rightarrow> blockwise \<Rightarrow> options \<Rightarrow> options" where
  "setBlock2 c block_tuple opts =
     addOption (deleteOption opts (BLOCK2 c)) (BlockOption (BLOCK2 c) block_tuple)"

definition getBlock2 :: "constants \<Rightarrow> options \<Rightarrow> error + pyvalue" where
  "getBlock2 c opts = first_value (getOption opts (BLOCK2 c))"

definition setBlock1 :: "constants \<Rightarrow> blockwise \<Rightarrow> options \<Rightarrow> options" where
  "setBlock1 c block_tuple opts =
     addOption (deleteOption opts (BLOCK1 c)) (BlockOption (BLOCK1 c) block_tuple)"

definition getBlock1 :: "constants \<Rightarrow> options \<Rightarrow> error + pyvalue" where
  "getBlock1 c opts = first_value (getOption opts (BLOCK1 c))"

text \<open>\<open>_setContentFormat\<close> adds the option whatever the argument, \<open>None\<close> too.\<close>

definition setContentFormat :: "constants \<Rightarrow> int option \<Rightarrow> options \<Rightarrow> options" where
  "setContentFormat c content_format opts =
     addOption (deleteOption opts (CONTENT_FORMAT c))
       (UintOption (CONTENT_FORMAT c) content_format)"

definition getContentFormat :: "constants \<Rightarrow> options \<Rightarrow> error + pyvalue" where
  "getContentFormat c opts = first_value (getOption opts (CONTENT_FORMAT c))"

definition setETag :: "constants \<Rightarrow> bytes option \<Rightarrow> options \<Rightarrow> options" where
  "setETag c etag opts =
     (case etag of
        None \<Rightarrow> deleteOption opts (ETAG c)
      | Some tag \<Rightarrow> addOption (deleteOption opts (ETAG c)) (OpaqueOption (ETAG c) tag))"

definition getETag :: "constants \<Rightarrow> options \<Rightarrow> error + pyvalue" where
  "getETag c opts = first_value (getOption opts (ETAG c))"

definition setETags :: "constants \<Rightarrow> bytes list \<Rightarrow> options \<Rightarrow> options" where
  "setETags c etags opts =
     foldl (\<lambda>opts tag. addOption opts (OpaqueOption (ETAG c) tag)) (deleteOption opts (ETAG c)) etags"

definition getETags :: "constants \<Rightarrow> options \<Rightarrow> pyvalue list" where
  "getETags c opts = segment_list (getOption opts (ETAG c))"

definition setObserve :: "constants \<Rightarrow> int option \<Rightarrow> options \<Rightarrow> options" where
  "setObserve c observe opts =
     (case observe of
        None \<Rightarrow> deleteOption opts (OBSERVE c)
      | Some v \<Rightarrow> addOption (deleteOption opts (OBSERVE c)) (UintOption (OBSERVE c) (Some v)))"

definition getObserve :: "constants \<Rightarrow> options \<Rightarrow> error + pyvalue" where
  "getObserve c opts = first_value (getOption opts (OBSERVE c))"

definition setAccept :: "constants \<Rightarrow> int option \<Rightarrow> options \<Rightarrow> options" where
  "setAccept c accept opts =
     (case accept of
        None \<Rightarrow> deleteOption opts (ACCEPT c)
      | Some v \<Rightarrow> addOption (deleteOption opts (ACCEPT c)) (UintOption (ACCEPT c) (Some v)))"

definition getAccept :: "constants \<Rightarrow> options \<Rightarrow> error + pyvalue" where
  "getAccept c opts = first_value (getOption opts (ACCEPT c))"

subsection \<open>Reachable option sets\<close>

text \<open>The option sets that a caller can build from \<open>Options()\<close> with \<open>addOption\<close>,
  \<open>deleteOption\<close>, \<open>decode\<close> (whether it returns or raises) and the setters.  A setter that
  raises leaves the set as it was.\<close>

inductive reachable :: "constants \<Rightarrow> options \<Rightarrow> bool" for c :: constants where
  init: "reachable c []"
| add: "reachable c opts \<Longrightarrow> reachable c (addOption opts opt)"
| delete: "reachable c opts \<Longrightarrow> reachable c (deleteOption opts n)"
| decoded: "reachable c opts \<Longrightarrow> reachable c (fst (decode opts rawdata))"
| uri_path: "reachable c opts \<Longrightarrow> setUriPath c segs opts = Inr opts' \<Longrightarrow> reachable c opts'"
| uri_query: "reachable c opts \<Longrightarrow> setUriQuery c segs opts = Inr opts' \<Longrightarrow> reachable c opts'"
| location_path:
    "reachable c opts \<Longrightarrow> setLocationPath c segs opts = Inr opts' \<Longrightarrow> reachable c opts'"
| block2: "reachable c opts \<Longrightarrow> reachable c (setBlock2 c block_tuple opts)"
| block1: "reachable c opts \<Longrightarrow> reachable c (setBlock1 c block_tuple opts)"
| content_format: "reachable c opts \<Longrightarrow> reachable c (setContentFormat c content_format opts)"
| etag: "reachable c opts \<Longrightarrow> reachable c (setETag c tag opts)"
| etags: "reachable c opts \<Longrightarrow> reachable c (setETags c tags opts)"
| observe: "reachable c opts \<Longrightarrow> reachable c (setObserve c observe opts)"
| accept: "reachable c opts \<Longrightarrow> reachable c (setAccept c accept opts)"

text \<open>The invariant of the dictionary: one entry for each key, no empty bucket, and in
  the bucket of a key only options with that number.\<close>

definition well_formed :: "options \<Rightarrow> bool" where
  "well_formed opts \<longleftrightarrow>
     distinct (map fst opts) \<and>
     (\<forall>(n, bucket) \<in> set opts. bucket \<noteq> [] \<and> (\<forall>opt \<in> set bucket. number opt = n))"

text \<open>The bucket of a number as a list, empty without a bucket.\<close>

definition bucket_of :: "options \<Rightarrow> int \<Rightarrow> pyoption list" where
  "bucket_of opts n = (case getOption opts n of None \<Rightarrow> [] | Some bucket \<Rightarrow> bucket)"

subsection \<open>The wire format\<close>

text \<open>One entry of the wire format, as the specification gives it (Option Set, External
  interfaces):
  a header byte holding the delta nibble and the length nibble, the delta extension, the
  length extension, and the value bytes, where nibbles and extensions are those of the
  delta and of the number of value bytes.\<close>

definition wire_entry :: "int \<Rightarrow> bytes \<Rightarrow> error + bytes" where
  "wire_entry delta v =
     (case writeExtendedFieldValue delta of
        Inl e \<Rightarrow> Inl e
      | Inr (delta_nibble, delta_ext) \<Rightarrow>
     (case writeExtendedFieldValue (int (length v)) of
        Inl e \<Rightarrow> Inl e
      | Inr (length_nibble, length_ext) \<Rightarrow>
     (case chr_py (push_bit 4 (delta_nibble AND 0x0F) + (length_nibble AND 0x0F)) of
        Inl e \<Rightarrow> Inl e
      | Inr header \<Rightarrow> Inr (header # delta_ext @ length_ext @ v))))"

text \<open>A sequence of entries, each given by its delta and its value bytes.\<close>

fun wire_entries :: "(int \<times> bytes) list \<Rightarrow> error + bytes" where
  "wire_entries [] = Inr []"
| "wire_entries ((delta, v) # entries) =
     (case wire_entry delta v of
        Inl e \<Rightarrow> Inl e
      | Inr entry \<Rightarrow>
     (case wire_entries entries of
        Inl e \<Rightarrow> Inl e
      | Inr rest \<Rightarrow> Inr (entry @ rest)))"

text \<open>The options that a sequence of entries stands for: the numbers are the running
  sums of the deltas, and each value is read by the class of the registry.\<close>

fun entry_options :: "int \<Rightarrow> (int \<times> bytes) list \<Rightarrow> pyoption list" where
  "entry_options option_number [] = []"
| "entry_options option_number ((delta, v) # entries) =
     Option_decode (construct (option_formats_get (option_number + delta)) (option_number + delta)) v
       # entry_options (option_number + delta) entries"

text \<open>Some delta or some length of the options, encoded in this order from the number
  \<open>current_opt_num\<close>, is above 65803.\<close>

fun exceeds :: "int \<Rightarrow> pyoption list \<Rightarrow> bool" where
  "exceeds current_opt_num [] = False"
| "exceeds current_opt_num (opt # option_list) =
     (number opt - current_opt_num > 65803 \<or> Option_length opt > 65803 \<or>
      exceeds (number opt) option_list)"

text \<open>The option values of the data model of the specification: any bytes for Opaque
  and Text, \<open>u32\<close> for UInt, and \<open>num: u28\<close>, \<open>szx: u3\<close> for Block.\<close>

fun data_model_value :: "pyoption \<Rightarrow> bool" where
  "data_model_value (OpaqueOption n v) = True"
| "data_model_value (StringOption n v) = True"
| "data_model_value (UintOption n v) =
     (case v of None \<Rightarrow> False | Some i \<Rightarrow> 0 \<le> i \<and> i < 2 ^ 32)"
| "data_model_value (BlockOption n v) =
     (0 \<le> num v \<and> num v < 2 ^ 28 \<and> 0 \<le> szx v \<and> szx v < 8)"

text \<open>The class of an option object.\<close>

fun class_of :: "pyoption \<Rightarrow> option_class" where
  "class_of (OpaqueOption n v) = OpaqueClass"
| "class_of (StringOption n v) = StringClass"
| "class_of (UintOption n v) = UintClass"
| "class_of (BlockOption n v) = BlockClass"

section \<open>Properties\<close>

subsection \<open>Extended field codec\<close>

lemma ord_byte_of: "0 \<le> i \<Longrightarrow> i < 256 \<Longrightarrow> ord_py (byte_of i) = i"
  by (simp add: ord_py_def byte_of_def uint_word_of_int)

lemma writeExtendedFieldValue_direct:
  "0 \<le> v \<Longrightarrow> v < 13 \<Longrightarrow> writeExtendedFieldValue v = Inr (v, [])"
  by (simp add: writeExtendedFieldValue_def)

lemma writeExtendedFieldValue_one:
  "13 \<le> v \<Longrightarrow> v < 269 \<Longrightarrow> writeExtendedFieldValue v = Inr (13, [byte_of (v - 13)])"
  by (simp add: writeExtendedFieldValue_def pack_B_def)

lemma writeExtendedFieldValue_two:
  "269 \<le> v \<Longrightarrow> v < 65804 \<Longrightarrow>
   writeExtendedFieldValue v =
     Inr (14, [byte_of ((v - 269) div 256), byte_of ((v - 269) mod 256)])"
  by (simp add: writeExtendedFieldValue_def pack_H_def)

lemma readExtendedFieldValue_one:
  "13 \<le> v \<Longrightarrow> v < 269 \<Longrightarrow>
   readExtendedFieldValue 13 (byte_of (v - 13) # rest) = Inr (v, rest)"
  by (simp add: readExtendedFieldValue_def ord_byte_of)

lemma readExtendedFieldValue_two:
  assumes "269 \<le> v" "v < 65804"
  shows "readExtendedFieldValue 14
           (byte_of ((v - 269) div 256) # byte_of ((v - 269) mod 256) # rest)
         = Inr (v, rest)"
proof -
  have hi: "ord_py (byte_of ((v - 269) div 256)) = (v - 269) div 256"
    using assms by (intro ord_byte_of) auto
  have lo: "ord_py (byte_of ((v - 269) mod 256)) = (v - 269) mod 256"
    by (intro ord_byte_of) auto
  show ?thesis
    by (simp add: readExtendedFieldValue_def hi lo)
qed

text \<open>
  C3.  For every integer \<open>v\<close> in 0..65803 the extended-field encoder succeeds, and the
  decoder applied to the nibble and to the extension bytes followed by any further bytes
  gives \<open>v\<close> back and leaves exactly those further bytes: it consumed the extension and
  nothing else.  The extension has no byte for 0..12 (the nibble is the value), one byte
  for 13..268 (nibble 13) and two bytes for 269..65803 (nibble 14).
\<close>

theorem extended_field_roundtrip:
  assumes "0 \<le> v" "v \<le> 65803"
  shows "\<exists>nibble ext.
           writeExtendedFieldValue v = Inr (nibble, ext) \<and>
           readExtendedFieldValue nibble (ext @ rest) = Inr (v, rest) \<and>
           (v < 13 \<longrightarrow> nibble = v \<and> length ext = 0) \<and>
           (13 \<le> v \<and> v < 269 \<longrightarrow> nibble = 13 \<and> length ext = 1) \<and>
           (269 \<le> v \<longrightarrow> nibble = 14 \<and> length ext = 2)"
proof -
  consider (direct) "v < 13" | (one) "13 \<le> v" "v < 269" | (two) "269 \<le> v"
    by linarith
  then show ?thesis
  proof cases
    case direct
    then show ?thesis
      using assms by (simp add: writeExtendedFieldValue_direct readExtendedFieldValue_def)
  next
    case one
    then show ?thesis
      by (simp add: writeExtendedFieldValue_one readExtendedFieldValue_one)
  next
    case two
    then have "v < 65804" using assms by simp
    with two show ?thesis
      by (simp add: writeExtendedFieldValue_two readExtendedFieldValue_two)
  qed
qed

theorem extended_field_roundtrip_witness:
  "writeExtendedFieldValue 300 = Inr (14, [0, 31]) \<and>
   readExtendedFieldValue 14 ([0, 31] @ [7, 9]) = Inr (300, [7, 9])"
proof -
  have w: "writeExtendedFieldValue 300 = Inr (14, [0, 31])"
    by (simp add: writeExtendedFieldValue_def pack_H_def byte_of_def)
  have "(0::int) \<le> 300" "(300::int) \<le> 65803" by simp_all
  from extended_field_roundtrip [OF this, of "[7, 9]"] w show ?thesis
    by auto
qed

subsection \<open>Unsigned integer values\<close>

lemma ord_py_bounds: "0 \<le> ord_py b" "ord_py b < 256"
  using uint_bounded [of b] by (simp_all add: ord_py_def)

lemma ord_py_zero_iff: "ord_py b = 0 \<longleftrightarrow> b = 0"
  by (simp add: ord_py_def uint_0_iff)

lemma foldl_accumulate:
  "foldl (\<lambda>v byte. (v * 256) + ord_py byte) a bs
   = a * 256 ^ length bs + foldl (\<lambda>v byte. (v * 256) + ord_py byte) 0 bs"
proof -
  define f where "f = (\<lambda>(v::int) byte. (v * 256) + ord_py byte)"
  have "foldl f a bs = a * 256 ^ length bs + foldl f 0 bs"
  proof (induction bs arbitrary: a)
    case Nil
    show ?case by simp
  next
    case (Cons b bs)
    have 1: "foldl f (f a b) bs = f a b * 256 ^ length bs + foldl f 0 bs"
      by (rule Cons.IH)
    have 2: "foldl f (f 0 b) bs = f 0 b * 256 ^ length bs + foldl f 0 bs"
      by (rule Cons.IH)
    have 3: "f a b = a * 256 + f 0 b"
      by (simp add: f_def)
    show ?case
      by (simp add: 1 2) (simp add: 3 algebra_simps)
  qed
  then show ?thesis by (simp add: f_def)
qed

lemma accumulate_Nil: "accumulate [] = 0"
  by (simp add: accumulate_def)

lemma accumulate_snoc: "accumulate (bs @ [b]) = accumulate bs * 256 + ord_py b"
  by (simp add: accumulate_def)

lemma accumulate_Cons: "accumulate (b # bs) = ord_py b * 256 ^ length bs + accumulate bs"
  using foldl_accumulate [of "ord_py b" bs] by (simp add: accumulate_def)

lemma accumulate_bounds: "0 \<le> accumulate bs \<and> accumulate bs < 256 ^ length bs"
proof (induction bs rule: rev_induct)
  case Nil
  show ?case by (simp add: accumulate_Nil)
next
  case (snoc b bs)
  then show ?case
    using ord_py_bounds [of b] by (simp add: accumulate_snoc)
qed

lemma accumulate_lstrip0: "accumulate (lstrip0 bs) = accumulate bs"
proof (induction bs)
  case Nil
  show ?case by (simp add: lstrip0_def)
next
  case (Cons b bs)
  then show ?case
    by (simp add: lstrip0_def accumulate_Cons ord_py_zero_iff [THEN iffD2])
qed

lemma lstrip0_no_leading_zero: "lstrip0 bs \<noteq> [] \<Longrightarrow> hd (lstrip0 bs) \<noteq> 0"
  unfolding lstrip0_def using hd_dropWhile [of "\<lambda>b. b = 0" bs] by simp

lemma accumulate_lower:
  assumes "bs \<noteq> []" "hd bs \<noteq> 0"
  shows "256 ^ (length bs - 1) \<le> accumulate bs"
proof -
  obtain b rest where bs: "bs = b # rest" using assms(1) by (cases bs) auto
  have "ord_py b \<noteq> 0" using assms(2) bs by (simp add: ord_py_zero_iff)
  then have "1 \<le> ord_py b" using ord_py_bounds(1) [of b] by linarith
  then have "(256::int) ^ length rest \<le> ord_py b * 256 ^ length rest"
    using mult_right_mono [of 1 "ord_py b" "256 ^ length rest"] by simp
  moreover have "0 \<le> accumulate rest" using accumulate_bounds by blast
  ultimately have "(256::int) ^ length rest \<le> ord_py b * 256 ^ length rest + accumulate rest"
    by linarith
  then show ?thesis by (simp add: bs accumulate_Cons)
qed

lemma four_bytes_value:
  fixes v :: int
  shows "((v div 16777216 * 256 + v div 65536 mod 256) * 256 + v div 256 mod 256) * 256
          + v mod 256 = v"
proof -
  define a where "a = v div 256"
  define b where "b = a div 256"
  define c where "c = b div 256"
  define r0 where "r0 = v mod 256"
  define r1 where "r1 = a mod 256"
  define r2 where "r2 = b mod 256"
  have b': "v div 65536 = b"
    using zdiv_zmult2_eq [of 256 v 256] by (simp add: a_def b_def)
  have c': "v div 16777216 = c"
    using zdiv_zmult2_eq [of 256 v 65536] b' by (simp add: c_def)
  have eb: "b = c * 256 + r2" by (simp add: c_def r2_def)
  have ea: "a = b * 256 + r1" by (simp add: b_def r1_def)
  have ev: "v = a * 256 + r0" by (simp add: a_def r0_def)
  have "((c * 256 + r2) * 256 + r1) * 256 + r0 = v"
    using eb ea ev by simp
  then show ?thesis
    by (simp only: b' c' a_def [symmetric] r0_def r1_def r2_def)
qed

lemma accumulate_four:
  "accumulate [b3, b2, b1, b0]
   = ((ord_py b3 * 256 + ord_py b2) * 256 + ord_py b1) * 256 + ord_py b0"
  by (simp add: accumulate_def)

lemma accumulate_pack_L:
  assumes "0 \<le> v" "v < 4294967296"
  shows "\<exists>bs. pack_L v = Inr bs \<and> accumulate bs = v \<and> length bs = 4"
proof -
  have a: "ord_py (byte_of (v div 16777216)) = v div 16777216"
    using assms by (intro ord_byte_of) auto
  have b: "ord_py (byte_of (v div 65536 mod 256)) = v div 65536 mod 256"
    by (intro ord_byte_of) auto
  have c: "ord_py (byte_of (v div 256 mod 256)) = v div 256 mod 256"
    by (intro ord_byte_of) auto
  have d: "ord_py (byte_of (v mod 256)) = v mod 256"
    by (intro ord_byte_of) auto
  have p: "pack_L v = Inr [byte_of (v div 16777216), byte_of (v div 65536 mod 256),
                            byte_of (v div 256 mod 256), byte_of (v mod 256)]"
    unfolding pack_L_def using assms by (simp only: if_True simp_thms)
  have "accumulate [byte_of (v div 16777216), byte_of (v div 65536 mod 256),
                    byte_of (v div 256 mod 256), byte_of (v mod 256)] = v"
    by (simp only: accumulate_four a b c d four_bytes_value)
  with p show ?thesis by simp
qed

lemma bits_of_le_iff: "bits_of n \<le> k \<longleftrightarrow> n < 2 ^ k"
proof (induction n arbitrary: k rule: bits_of.induct)
  case (1 n)
  show ?case
  proof (cases "n = 0")
    case True
    then show ?thesis by (simp add: bits_of.simps)
  next
    case False
    show ?thesis
    proof (cases k)
      case 0
      with False show ?thesis by (simp add: bits_of.simps [of n])
    next
      case (Suc j)
      have "bits_of n \<le> Suc j \<longleftrightarrow> bits_of (n div 2) \<le> j"
        using False by (simp add: bits_of.simps [of n])
      also have "\<dots> \<longleftrightarrow> n div 2 < 2 ^ j" using 1 [OF False] .
      also have "\<dots> \<longleftrightarrow> n < 2 ^ Suc j" by auto
      finally show ?thesis using Suc by simp
    qed
  qed
qed

lemma bit_length_nonneg: "0 \<le> v \<Longrightarrow> bit_length v = int (bits_of (nat v))"
  by (simp add: bit_length_def)

lemma bit_length_zero: "bit_length 0 = 0"
  by (simp add: bit_length_def bits_of.simps)

lemma length_by_bit_length:
  assumes "bs \<noteq> []" "hd bs \<noteq> 0"
  shows "int (length bs) = (bit_length (accumulate bs) - 1) div 8 + 1"
proof -
  define L where "L = length bs"
  define v where "v = accumulate bs"
  define k where "k = bits_of (nat v)"
  have L: "0 < L" using assms(1) by (simp add: L_def)
  have lo: "256 ^ (L - 1) \<le> v" and hi: "v < 256 ^ L" and v0: "0 \<le> v"
    using accumulate_lower [OF assms] accumulate_bounds [of bs] by (simp_all add: L_def v_def)
  have p: "(256::int) ^ n = 2 ^ (8 * n)" for n
    by (simp add: power_mult)
  have "nat v < 2 ^ (8 * L)"
    using hi v0 unfolding p by (simp add: nat_less_iff)
  then have k_hi: "k \<le> 8 * L"
    unfolding k_def by (rule bits_of_le_iff [THEN iffD2])
  have "\<not> nat v < 2 ^ (8 * (L - 1))"
    using lo v0 unfolding p by (simp add: nat_less_iff)
  then have "\<not> k \<le> 8 * (L - 1)"
    unfolding k_def using bits_of_le_iff [of "nat v" "8 * (L - 1)"] by blast
  then have k_lo: "8 * (L - 1) < k"
    by simp
  have "(int k - 1) div 8 + 1 = int L"
    using k_lo k_hi L by (cases L) auto
  then show ?thesis
    using v0 by (simp add: bit_length_nonneg L_def v_def k_def)
qed

lemma accumulate_zero_stripped:
  assumes "accumulate bs = 0" "bs = [] \<or> hd bs \<noteq> 0"
  shows "bs = []"
proof (rule ccontr)
  assume ne: "bs \<noteq> []"
  with assms(2) have "hd bs \<noteq> 0" by simp
  have "(0::int) < 256 ^ (length bs - 1)" by simp
  with accumulate_lower [OF ne \<open>hd bs \<noteq> 0\<close>] assms(1) show False by linarith
qed

lemma Uint_encode_bytes:
  assumes "0 \<le> v" "v < 4294967296"
  shows "\<exists>bs. Option_encode (UintOption n (Some v)) = Inr bs \<and> accumulate bs = v \<and>
              (bs = [] \<or> hd bs \<noteq> 0) \<and> length bs \<le> 4"
proof -
  obtain raw where raw: "pack_L v = Inr raw" "accumulate raw = v" "length raw = 4"
    using accumulate_pack_L [OF assms] by blast
  have "length (lstrip0 raw) \<le> 4"
    using length_dropWhile_le [of "\<lambda>b. b = 0" raw] raw(3) by (simp add: lstrip0_def)
  then show ?thesis
    using raw lstrip0_no_leading_zero [of raw] by (auto simp: accumulate_lstrip0)
qed


lemma Uint_encode_properties:
  "0 \<le> v \<and> v < 2 ^ 32 \<longrightarrow>
     (\<exists>bs. Option_encode (UintOption n (Some v)) = Inr bs \<and>
           (bs = [] \<or> hd bs \<noteq> 0) \<and>
           (v = 0 \<longrightarrow> bs = []) \<and>
           Option_decode (UintOption n old) bs = UintOption n (Some v) \<and>
           (\<forall>bs'. accumulate bs' = v \<longrightarrow> length bs \<le> length bs') \<and>
           Option_length (UintOption n (Some v)) = int (length bs) \<and>
           Option_length (UintOption n (Some v)) = (bit_length v + 7) div 8)"
proof
  assume "0 \<le> v \<and> v < 2 ^ 32"
  then have range: "0 \<le> v" "v < 4294967296" by simp_all
  obtain bs where bs: "Option_encode (UintOption n (Some v)) = Inr bs" "accumulate bs = v"
      "bs = [] \<or> hd bs \<noteq> 0"
    using Uint_encode_bytes [OF range] by blast
  have zero: "v = 0 \<longrightarrow> bs = []"
    using accumulate_zero_stripped [of bs] bs(2,3) by simp
  have minimal: "length bs \<le> length bs'" if "accumulate bs' = v" for bs'
  proof (cases "bs = []")
    case True
    then show ?thesis by simp
  next
    case False
    with bs(3) have "256 ^ (length bs - 1) \<le> v"
      using accumulate_lower [of bs] bs(2) by simp
    moreover have "v < 256 ^ length bs'"
      using accumulate_bounds [of bs'] that by simp
    ultimately have "(256::int) ^ (length bs - 1) < 256 ^ length bs'" by linarith
    then have "length bs - 1 < length bs'" by simp
    with False show ?thesis by (cases bs) auto
  qed
  have len: "Option_length (UintOption n (Some v)) = int (length bs)"
  proof (cases "v = 0")
    case True
    with zero show ?thesis by simp
  next
    case False
    then have "bs \<noteq> []" using bs(2) by (auto simp: accumulate_Nil)
    with bs(3) have "int (length bs) = (bit_length v - 1) div 8 + 1"
      using length_by_bit_length [of bs] bs(2) by simp
    with False range show ?thesis by simp
  qed
  have ceil: "Option_length (UintOption n (Some v)) = (bit_length v + 7) div 8"
  proof (cases "v = 0")
    case True
    then show ?thesis by (simp add: bit_length_zero)
  next
    case False
    have "(bit_length v - 1) div 8 + 1 = (bit_length v + 7) div 8" by simp
    with False range show ?thesis by simp
  qed
  show "\<exists>bs. Option_encode (UintOption n (Some v)) = Inr bs \<and>
         (bs = [] \<or> hd bs \<noteq> 0) \<and>
         (v = 0 \<longrightarrow> bs = []) \<and>
         Option_decode (UintOption n old) bs = UintOption n (Some v) \<and>
         (\<forall>bs'. accumulate bs' = v \<longrightarrow> length bs \<le> length bs') \<and>
         Option_length (UintOption n (Some v)) = int (length bs) \<and>
         Option_length (UintOption n (Some v)) = (bit_length v + 7) div 8"
    using bs zero minimal len ceil by (intro exI [of _ bs]) simp
qed

text \<open>
  C5.  \<open>UintOption.decode\<close> of any bytes accumulates them big-endian: the empty string
  gives 0, and one more byte gives \<open>value * 256 + ord(byte)\<close>.  For every \<open>v\<close> in
  0..2^32-1, \<open>UintOption.encode\<close> succeeds with bytes that have no leading zero byte, that
  are empty for 0, that decode back to \<open>v\<close> and that are the shortest bytes decoding to
  \<open>v\<close>; the \<open>length\<close> property is the number of these bytes, which is
  \<open>bit_length(v)\<close> divided by 8 and rounded up.
\<close>

theorem Uint_codec:
  "accumulate [] = 0 \<and>
   accumulate (rawdata @ [byte]) = accumulate rawdata * 256 + ord_py byte \<and>
   Option_decode (UintOption n old) rawdata = UintOption n (Some (accumulate rawdata)) \<and>
   (0 \<le> v \<and> v < 2 ^ 32 \<longrightarrow>
     (\<exists>bs. Option_encode (UintOption n (Some v)) = Inr bs \<and>
           (bs = [] \<or> hd bs \<noteq> 0) \<and>
           (v = 0 \<longrightarrow> bs = []) \<and>
           Option_decode (UintOption n old) bs = UintOption n (Some v) \<and>
           (\<forall>bs'. accumulate bs' = v \<longrightarrow> length bs \<le> length bs') \<and>
           Option_length (UintOption n (Some v)) = int (length bs) \<and>
           Option_length (UintOption n (Some v)) = (bit_length v + 7) div 8))"
  using Uint_encode_properties [of v n old]
  by (simp only: accumulate_Nil accumulate_snoc Option_decode.simps simp_thms)

theorem Uint_codec_witness:
  "Option_encode (UintOption 12 (Some 65536)) = Inr [1, 0, 0] \<and>
   Option_decode (UintOption 12 None) [1, 0, 0] = UintOption 12 (Some 65536) \<and>
   Option_length (UintOption 12 (Some 65536)) = 3 \<and>
   (bit_length 65536 + 7) div 8 = 3"
proof -
  have e: "Option_encode (UintOption 12 (Some 65536)) = Inr [1, 0, 0]"
    by code_simp
  have r: "(0::int) \<le> 65536 \<and> (65536::int) < 2 ^ 32"
    by simp
  from Uint_codec [where v = 65536 and n = 12 and old = None] r
  obtain bs where bs: "Option_encode (UintOption 12 (Some 65536)) = Inr bs"
      "Option_decode (UintOption 12 None) bs = UintOption 12 (Some 65536)"
      "Option_length (UintOption 12 (Some 65536)) = int (length bs)"
      "Option_length (UintOption 12 (Some 65536)) = (bit_length 65536 + 7) div 8"
    by blast
  from bs(1) e have "bs = [1, 0, 0]"
    by (simp only: sum.inject)
  with bs e show ?thesis
    by (simp only: list.size) simp
qed

subsection \<open>Block values\<close>

text \<open>
  C2.  The claim is that the \<open>length\<close> of a Block option is the number of bytes that its
  \<open>encode\<close> emits.  For the value \<open>(0, False, 0)\<close> the packed integer is 0, \<open>encode\<close>
  emits no byte, and \<open>length\<close> is 1.
\<close>

theorem Block_length_zero_value:
  "Option_encode (BlockOption 23 (BlockwiseTuple 0 False 0)) = Inr [] \<and>
   Option_length (BlockOption 23 (BlockwiseTuple 0 False 0)) = 1"
  by code_simp

subsection \<open>Round trip of an option set\<close>

text \<open>
  C1.  The claim is that \<open>decode\<close> of the bytes of \<open>encode\<close> gives the option set back.
  The set with Block2 \<open>(0, False, 0)\<close> and Block1 \<open>(1, False, 0)\<close> encodes to four bytes,
  the first entry announcing a value of one byte and having none; \<open>decode\<close> then reads the
  header of the second entry as the value of the first, and returns Block2 \<open>(4, False, 1)\<close>
  and an empty option 24.
\<close>

theorem roundtrip_fails_on_zero_block:
  "encode [(23, [BlockOption 23 (BlockwiseTuple 0 False 0)]),
           (27, [BlockOption 27 (BlockwiseTuple 1 False 0)])] = Inr [0xD1, 0x0A, 0x41, 0x10] \<and>
   decode [] [0xD1, 0x0A, 0x41, 0x10] =
     ([(23, [BlockOption 23 (BlockwiseTuple 4 False 1)]), (24, [OpaqueOption 24 []])], Inr [])"
  by code_simp

subsection \<open>The payload marker\<close>

lemma decode_loop_empty: "decode_loop n opts [] = (opts, Inr [])"
  by (simp add: decode_loop.simps)

lemma decode_loop_marker: "decode_loop n opts (0xFF # rest) = (opts, Inr rest)"
  by (simp add: decode_loop.simps ord_py_def)

lemma decode_loop_pass:
  "length rawdata > 0 \<Longrightarrow> ord_py (hd rawdata) \<noteq> 0xFF \<Longrightarrow>
   decode_entry n rawdata = Inr (opt, rest) \<Longrightarrow>
   decode_loop n opts rawdata = decode_loop (number opt) (addOption opts opt) rest"
  by (simp add: decode_loop.simps [of n opts rawdata])

lemma decode_loop_error:
  "length rawdata > 0 \<Longrightarrow> ord_py (hd rawdata) \<noteq> 0xFF \<Longrightarrow>
   decode_entry n rawdata = Inl e \<Longrightarrow> decode_loop n opts rawdata = (opts, Inl e)"
  by (simp add: decode_loop.simps [of n opts rawdata])

lemma ord_py_marker: "ord_py b = 0xFF \<longleftrightarrow> b = 0xFF"
proof
  assume "ord_py b = 0xFF"
  then have "uint b = uint (0xFF :: byte)" by (simp add: ord_py_def)
  then show "b = 0xFF" by (simp only: word_uint_eq_iff [symmetric])
next
  assume "b = 0xFF" then show "ord_py b = 0xFF" by (simp add: ord_py_def)
qed

lemma readExtendedFieldValue_suffix:
  "readExtendedFieldValue v rawdata = Inr (v', rest) \<Longrightarrow> \<exists>pre. rawdata = pre @ rest"
proof -
  assume a: "readExtendedFieldValue v rawdata = Inr (v', rest)"
  have 2: "rawdata = take 2 rawdata @ drop 2 rawdata" by simp
  from a show ?thesis
    apply (auto simp: readExtendedFieldValue_def split: if_splits list.splits sum.splits)
    using 2 by blast
qed

lemma decode_entry_reads:
  assumes "decode_entry n (b # r0) = Inr (opt, rest)"
  obtains d l r1 r2 where
    "readExtendedFieldValue (drop_bit 4 (ord_py b AND 0xF0)) r0 = Inr (d, r1)"
    "readExtendedFieldValue (ord_py b AND 0x0F) r1 = Inr (l, r2)"
    "opt = Option_decode (construct (option_formats_get (n + d)) (n + d)) (take (nat l) r2)"
    "rest = drop (nat l) r2"
  using assms by (auto simp: decode_entry_def Let_def split: sum.splits prod.splits)

lemma decode_entry_suffix:
  assumes "rawdata \<noteq> []" "decode_entry n rawdata = Inr (opt, rest)"
  shows "\<exists>pre. rawdata = pre @ rest"
proof -
  obtain b r0 where r: "rawdata = b # r0" using assms(1) by (cases rawdata) auto
  from assms(2) [unfolded r] obtain d l r1 r2 where
      1: "readExtendedFieldValue (drop_bit 4 (ord_py b AND 0xF0)) r0 = Inr (d, r1)"
      and 2: "readExtendedFieldValue (ord_py b AND 0x0F) r1 = Inr (l, r2)"
      and 3: "rest = drop (nat l) r2"
    by (rule decode_entry_reads)
  from 1 obtain p1 where p1: "r0 = p1 @ r1" using readExtendedFieldValue_suffix by blast
  from 2 obtain p2 where p2: "r1 = p2 @ r2" using readExtendedFieldValue_suffix by blast
  have "r2 = take (nat l) r2 @ rest" by (simp add: 3)
  then have "rawdata = (b # p1 @ p2 @ take (nat l) r2) @ rest"
    using r p1 p2 by simp
  then show ?thesis by blast
qed

lemma decode_loop_payload:
  "decode_loop n opts rawdata = (opts', Inr payload) \<Longrightarrow>
   payload = [] \<or> (\<exists>pre. rawdata = pre @ 0xFF # payload)"
proof (induction n opts rawdata rule: decode_loop.induct)
  case (1 n opts rawdata)
  show ?case
  proof (cases "length rawdata > 0")
    case False
    with 1(2) show ?thesis by (simp add: decode_loop.simps)
  next
    case ne: True
    show ?thesis
    proof (cases "ord_py (hd rawdata) = 0xFF")
      case True
      then have "hd rawdata = 0xFF" by (simp only: ord_py_marker)
      with ne have "rawdata = [] @ 0xFF # tl rawdata" by (cases rawdata) auto
      moreover from 1(2) ne True have "payload = tl rawdata"
        by (simp add: decode_loop.simps [of n opts rawdata])
      ultimately show ?thesis by blast
    next
      case nm: False
      show ?thesis
      proof (cases "decode_entry n rawdata")
        case (Inl e)
        with 1(2) ne nm show ?thesis by (simp add: decode_loop_error)
      next
        case (Inr p)
        obtain opt rest where p: "p = (opt, rest)" by (cases p)
        from 1(2) have "decode_loop (number opt) (addOption opts opt) rest = (opts', Inr payload)"
          using decode_loop_pass [OF ne nm Inr [unfolded p]] by simp
        from 1(1) [OF ne nm Inr [unfolded p] refl this]
        have "payload = [] \<or> (\<exists>pre. rest = pre @ 0xFF # payload)" .
        moreover obtain pre0 where "rawdata = pre0 @ rest"
          using decode_entry_suffix [of rawdata n opt rest] ne Inr p by auto
        ultimately show ?thesis by (metis append.assoc)
      qed
    qed
  qed
qed

lemma class_of_decode: "class_of (Option_decode (construct cls n) v) = cls"
  by (cases cls) (simp_all add: Let_def)

lemma number_decode: "number (Option_decode (construct cls n) v) = n"
  by (cases cls) (simp_all add: Let_def)

lemma decode_entry_reads_intro:
  assumes "readExtendedFieldValue (drop_bit 4 (ord_py b AND 0xF0)) r0 = Inr (d, r1)"
    and "readExtendedFieldValue (ord_py b AND 0x0F) r1 = Inr (l, r2)"
  shows "decode_entry cur (b # r0) =
           Inr (Option_decode (construct (option_formats_get (cur + d)) (cur + d)) (take (nat l) r2),
                drop (nat l) r2)"
  using assms by (simp add: decode_entry_def Let_def)

lemma mask4: "(x::int) AND 15 = x mod 16"
proof -
  have "x AND mask 4 = take_bit 4 x" by (simp only: take_bit_eq_mask)
  moreover have "mask 4 = (15::int)" by (simp add: mask_eq_exp_minus_1)
  ultimately show ?thesis by (simp add: take_bit_eq_mod)
qed

lemma high_nibble: "drop_bit 4 ((x::int) AND 240) = x div 16 mod 16"
proof -
  have "drop_bit 4 (x AND 240) = drop_bit 4 x AND drop_bit 4 240"
    by (rule drop_bit_and)
  also have "drop_bit 4 (240::int) = 15" by (simp add: drop_bit_eq_div)
  finally show ?thesis by (simp add: mask4 drop_bit_eq_div)
qed

lemma header_nibbles:
  assumes "0 \<le> dn" "dn \<le> 14" "0 \<le> ln" "ln \<le> 14"
  shows "\<exists>h. chr_py (push_bit 4 (dn AND 0x0F) + (ln AND 0x0F)) = Inr h \<and> h \<noteq> 0xFF \<and>
             drop_bit 4 (ord_py h AND 0xF0) = dn \<and> ord_py h AND 0x0F = ln"
proof -
  have d: "dn AND 15 = dn" and l: "ln AND 15 = ln"
    using assms by (simp_all add: mask4)
  define x where "x = 16 * dn + ln"
  have x: "push_bit 4 (dn AND 0x0F) + (ln AND 0x0F) = x"
    by (simp add: d l x_def push_bit_eq_mult)
  have r: "0 \<le> x" "x < 255" using assms by (simp_all add: x_def)
  then have c: "chr_py x = Inr (byte_of x)" by (simp add: chr_py_def)
  have o: "ord_py (byte_of x) = x" using r by (intro ord_byte_of) simp_all
  have nm: "byte_of x \<noteq> 0xFF"
  proof
    assume "byte_of x = 0xFF"
    then have "ord_py (byte_of x) = ord_py 0xFF" by simp
    with o r show False by (simp add: ord_py_def)
  qed
  have xd: "x div 16 mod 16 = dn" and xl: "x mod 16 = ln"
    using assms by (simp_all add: x_def)
  have hn: "drop_bit 4 (ord_py (byte_of x) AND 0xF0) = dn"
    by (simp only: o high_nibble xd)
  have lo: "ord_py (byte_of x) AND 0x0F = ln"
    by (simp only: o mask4 xl)
  from c nm hn lo show ?thesis
    unfolding x by (intro exI [of _ "byte_of x"] conjI)
qed

lemma write_read_extended:
  assumes "writeExtendedFieldValue v = Inr (nibble, ext)"
  shows "0 \<le> nibble \<and> nibble \<le> 14 \<and> readExtendedFieldValue nibble (ext @ rest) = Inr (v, rest)"
proof -
  have range: "0 \<le> v" "v < 65804"
    using assms by (auto simp: writeExtendedFieldValue_def split: if_splits)
  consider (direct) "v < 13" | (one) "13 \<le> v" "v < 269" | (two) "269 \<le> v"
    by linarith
  then show ?thesis
  proof cases
    case direct
    with range assms show ?thesis
      by (auto simp: writeExtendedFieldValue_direct readExtendedFieldValue_def)
  next
    case one
    with assms show ?thesis
      by (auto simp: writeExtendedFieldValue_one readExtendedFieldValue_one)
  next
    case two
    with range assms show ?thesis
      by (auto simp: writeExtendedFieldValue_two readExtendedFieldValue_two)
  qed
qed

lemma decode_entry_wire_entry:
  assumes "wire_entry delta v = Inr entry"
  shows "entry \<noteq> [] \<and> hd entry \<noteq> 0xFF \<and>
         decode_entry option_number (entry @ rest) =
           Inr (Option_decode (construct (option_formats_get (option_number + delta))
                  (option_number + delta)) v, rest)"
proof -
  from assms obtain dn dext ln lext h where
      wd: "writeExtendedFieldValue delta = Inr (dn, dext)"
      and wl: "writeExtendedFieldValue (int (length v)) = Inr (ln, lext)"
      and ch: "chr_py (push_bit 4 (dn AND 0x0F) + (ln AND 0x0F)) = Inr h"
      and en: "entry = h # dext @ lext @ v"
    by (auto simp: wire_entry_def split: sum.splits prod.splits)
  have rd: "0 \<le> dn" "dn \<le> 14"
      "readExtendedFieldValue dn (dext @ lext @ v @ rest) = Inr (delta, lext @ v @ rest)"
    using write_read_extended [OF wd, of "lext @ v @ rest"] by simp_all
  have rl: "0 \<le> ln" "ln \<le> 14"
      "readExtendedFieldValue ln (lext @ v @ rest) = Inr (int (length v), v @ rest)"
    using write_read_extended [OF wl, of "v @ rest"] by simp_all
  from header_nibbles [OF rd(1,2) rl(1,2)] ch
  have h: "h \<noteq> 0xFF" "drop_bit 4 (ord_py h AND 0xF0) = dn" "ord_py h AND 0x0F = ln"
    by simp_all
  have "decode_entry option_number (h # dext @ lext @ v @ rest) =
          Inr (Option_decode (construct (option_formats_get (option_number + delta))
                 (option_number + delta)) (take (nat (int (length v))) (v @ rest)),
               drop (nat (int (length v))) (v @ rest))"
    using rd(3) rl(3) h(2,3) by (intro decode_entry_reads_intro) simp_all
  then show ?thesis
    using h(1) by (simp add: en)
qed

lemma number_Option_decode: "number (Option_decode opt v) = number opt"
  by (cases opt) (simp_all add: Let_def)

lemma decode_loop_wire_entries:
  assumes "wire_entries entries = Inr bs"
  shows "decode_loop n opts (bs @ tail) =
           decode_loop (n + sum_list (map fst entries))
             (foldl addOption opts (entry_options n entries)) tail"
  using assms
proof (induction entries arbitrary: n opts bs)
  case Nil
  then show ?case by simp
next
  case (Cons e entries)
  obtain delta v where e: "e = (delta, v)" by (cases e)
  from Cons.prems obtain entry rest where
      w: "wire_entry delta v = Inr entry" and ws: "wire_entries entries = Inr rest"
      and bs: "bs = entry @ rest"
    by (auto simp: e split: sum.splits)
  define opt where "opt = Option_decode (construct (option_formats_get (n + delta)) (n + delta)) v"
  have d: "entry \<noteq> []" "hd entry \<noteq> 0xFF"
      "decode_entry n (entry @ rest @ tail) = Inr (opt, rest @ tail)"
    using decode_entry_wire_entry [OF w, of n "rest @ tail"] by (simp_all add: opt_def)
  have num: "number opt = n + delta"
    by (simp add: opt_def number_decode)
  have "length (entry @ rest @ tail) > 0" using d(1) by simp
  moreover have "ord_py (hd (entry @ rest @ tail)) \<noteq> 0xFF"
    using d(1,2) by (simp add: ord_py_marker)
  ultimately have "decode_loop n opts (entry @ rest @ tail)
      = decode_loop (number opt) (addOption opts opt) (rest @ tail)"
    using d(3) by (rule decode_loop_pass)
  also have "\<dots> = decode_loop (n + delta + sum_list (map fst entries))
       (foldl addOption (addOption opts opt) (entry_options (n + delta) entries)) tail"
    unfolding num by (rule Cons.IH [OF ws])
  finally show ?case
    by (simp add: bs e opt_def add.assoc)
qed

text \<open>
  C6.  On the bytes of any sequence of wire-format entries followed by the byte 0xFF and
  by any further bytes, \<open>Options.decode\<close> adds exactly the options of the entries and
  returns the bytes after the 0xFF byte as the payload: it stops at the marker that stands
  where an entry would start, whatever bytes (0xFF too) the entries hold.  On the bytes of
  the entries alone the payload is empty.  On every input, a payload returned is empty or
  is what follows a 0xFF byte of the input, so that it is empty when the input has no such
  byte.
\<close>

theorem decode_stops_at_marker:
  "(wire_entries entries = Inr bs \<longrightarrow>
      decode opts (bs @ 0xFF # payload) = (foldl addOption opts (entry_options 0 entries), Inr payload) \<and>
      decode opts bs = (foldl addOption opts (entry_options 0 entries), Inr [])) \<and>
   (decode opts rawdata = (opts'', Inr p) \<longrightarrow> p = [] \<or> (\<exists>pre. rawdata = pre @ 0xFF # p)) \<and>
   (decode opts rawdata = (opts'', Inr p) \<and> 0xFF \<notin> set rawdata \<longrightarrow> p = [])"
proof (intro conjI impI)
  assume w: "wire_entries entries = Inr bs"
  show "decode opts (bs @ 0xFF # payload)
          = (foldl addOption opts (entry_options 0 entries), Inr payload)"
    using decode_loop_wire_entries [OF w, of 0 opts "0xFF # payload"]
    by (simp add: decode_def decode_loop_marker)
  show "decode opts bs = (foldl addOption opts (entry_options 0 entries), Inr [])"
    using decode_loop_wire_entries [OF w, of 0 opts "[]"]
    by (simp add: decode_def decode_loop_empty)
next
  assume "decode opts rawdata = (opts'', Inr p)"
  then show "p = [] \<or> (\<exists>pre. rawdata = pre @ 0xFF # p)"
    unfolding decode_def by (rule decode_loop_payload)
next
  assume a: "decode opts rawdata = (opts'', Inr p) \<and> 0xFF \<notin> set rawdata"
  then have "p = [] \<or> (\<exists>pre. rawdata = pre @ 0xFF # p)"
    unfolding decode_def using decode_loop_payload by blast
  with a show "p = []" by auto
qed

theorem decode_stops_at_marker_witness:
  "wire_entries [(12, [0x28]), (9987, [0xFF, 0xFF])] = Inr [0xC1, 0x28, 0xE2, 0x25, 0xF6, 0xFF, 0xFF] \<and>
   decode [] ([0xC1, 0x28, 0xE2, 0x25, 0xF6, 0xFF, 0xFF] @ 0xFF # [104, 101, 108, 108, 111]) =
     ([(12, [UintOption 12 (Some 40)]), (9999, [OpaqueOption 9999 [0xFF, 0xFF]])],
      Inr [104, 101, 108, 108, 111])"
proof -
  have w: "wire_entries [(12, [0x28]), (9987, [0xFF, 0xFF])]
             = Inr [0xC1, 0x28, 0xE2, 0x25, 0xF6, 0xFF, 0xFF]"
    by code_simp
  have o: "foldl addOption [] (entry_options 0 [(12, [0x28]), (9987, [0xFF, 0xFF])])
             = [(12, [UintOption 12 (Some 40)]), (9999, [OpaqueOption 9999 [0xFF, 0xFF]])]"
    by code_simp
  note th = decode_stops_at_marker [of "[(12, [0x28]), (9987, [0xFF, 0xFF])]"
      "[0xC1, 0x28, 0xE2, 0x25, 0xF6, 0xFF, 0xFF]" "[]" "[104, 101, 108, 108, 111]"]
  have "decode [] ([0xC1, 0x28, 0xE2, 0x25, 0xF6, 0xFF, 0xFF] @ 0xFF # [104, 101, 108, 108, 111])
      = (foldl addOption [] (entry_options 0 [(12, [0x28]), (9987, [0xFF, 0xFF])]),
         Inr [104, 101, 108, 108, 111])"
    using th [THEN conjunct1, THEN mp, OF w, THEN conjunct1] .
  with w show ?thesis
    by (simp only: o simp_thms)
qed

subsection \<open>The registry in the decoder\<close>

lemma option_formats_get_table:
  "option_formats_get n =
     (if n \<in> {3, 8, 11, 15, 20, 35, 39} then StringClass
      else if n \<in> {6, 7, 12, 14, 17, 28, 60} then UintClass
      else if n \<in> {23, 27} then BlockClass
      else OpaqueClass)"
  by (simp add: option_formats_get_def option_formats_def)

text \<open>
  C7.  \<open>option_formats.get(n, OpaqueOption)\<close> is the Text class for 3, 8, 11, 15, 20, 35
  and 39, the UInt class for 6, 7, 12, 14, 17, 28 and 60, the Block class for 23 and 27, and
  the Opaque class for every other number.  A pass of the decoding loop whose header and
  extensions can be read never raises: it gives an option with the accumulated number,
  of the class of the registry for that number; for a number outside the registry it is
  the Opaque option whose value is the value bytes of the entry.
\<close>

theorem decode_registry:
  "option_formats_get n =
     (if n \<in> {3, 8, 11, 15, 20, 35, 39} then StringClass
      else if n \<in> {6, 7, 12, 14, 17, 28, 60} then UintClass
      else if n \<in> {23, 27} then BlockClass
      else OpaqueClass) \<and>
   (readExtendedFieldValue (drop_bit 4 (ord_py b AND 0xF0)) r0 = Inr (d, r1) \<and>
    readExtendedFieldValue (ord_py b AND 0x0F) r1 = Inr (l, r2) \<longrightarrow>
      (\<exists>opt. decode_entry cur (b # r0) = Inr (opt, drop (nat l) r2) \<and>
             number opt = cur + d \<and>
             class_of opt = option_formats_get (cur + d) \<and>
             (cur + d \<notin> {3, 6, 7, 8, 11, 12, 14, 15, 17, 20, 23, 27, 28, 35, 39, 60} \<longrightarrow>
                opt = OpaqueOption (cur + d) (take (nat l) r2)) \<and>
             (b \<noteq> 0xFF \<longrightarrow>
                decode_loop cur opts (b # r0) =
                  decode_loop (cur + d) (addOption opts opt) (drop (nat l) r2))))"
proof (intro conjI impI)
  show "option_formats_get n =
     (if n \<in> {3, 8, 11, 15, 20, 35, 39} then StringClass
      else if n \<in> {6, 7, 12, 14, 17, 28, 60} then UintClass
      else if n \<in> {23, 27} then BlockClass
      else OpaqueClass)"
    by (rule option_formats_get_table)
next
  assume a: "readExtendedFieldValue (drop_bit 4 (ord_py b AND 0xF0)) r0 = Inr (d, r1) \<and>
    readExtendedFieldValue (ord_py b AND 0x0F) r1 = Inr (l, r2)"
  define opt where
    "opt = Option_decode (construct (option_formats_get (cur + d)) (cur + d)) (take (nat l) r2)"
  have e: "decode_entry cur (b # r0) = Inr (opt, drop (nat l) r2)"
    unfolding opt_def using a by (intro decode_entry_reads_intro) auto
  have n: "number opt = cur + d"
    by (simp add: opt_def number_decode)
  have c: "class_of opt = option_formats_get (cur + d)"
    by (simp add: opt_def class_of_decode)
  have o: "opt = OpaqueOption (cur + d) (take (nat l) r2)"
    if "cur + d \<notin> {3, 6, 7, 8, 11, 12, 14, 15, 17, 20, 23, 27, 28, 35, 39, 60}"
  proof -
    from that have "option_formats_get (cur + d) = OpaqueClass"
      by (simp add: option_formats_get_table)
    then show ?thesis by (simp add: opt_def)
  qed
  have s: "decode_loop cur opts (b # r0) = decode_loop (cur + d) (addOption opts opt) (drop (nat l) r2)"
    if "b \<noteq> 0xFF"
  proof -
    from that have "ord_py (hd (b # r0)) \<noteq> 0xFF" by (simp add: ord_py_marker)
    from decode_loop_pass [OF _ this e, of opts] show ?thesis by (simp add: n)
  qed
  show "\<exists>opt. decode_entry cur (b # r0) = Inr (opt, drop (nat l) r2) \<and>
             number opt = cur + d \<and>
             class_of opt = option_formats_get (cur + d) \<and>
             (cur + d \<notin> {3, 6, 7, 8, 11, 12, 14, 15, 17, 20, 23, 27, 28, 35, 39, 60} \<longrightarrow>
                opt = OpaqueOption (cur + d) (take (nat l) r2)) \<and>
             (b \<noteq> 0xFF \<longrightarrow>
                decode_loop cur opts (b # r0) =
                  decode_loop (cur + d) (addOption opts opt) (drop (nat l) r2))"
    using e n c o s by (intro exI [of _ opt]) blast
qed

theorem decode_registry_witness:
  "decode_entry 0 [0xE3, 0x26, 0x02, 1, 2, 3] = Inr (OpaqueOption 9999 [1, 2, 3], []) \<and>
   decode [] [0xE3, 0x26, 0x02, 1, 2, 3] = ([(9999, [OpaqueOption 9999 [1, 2, 3]])], Inr [])"
proof -
  have d: "readExtendedFieldValue (drop_bit 4 (ord_py 0xE3 AND 0xF0)) [0x26, 0x02, 1, 2, 3]
             = Inr (9999, [1, 2, 3])"
    by code_simp
  have l: "readExtendedFieldValue (ord_py 0xE3 AND 0x0F) [1, 2, 3] = Inr (3, [1, 2, 3])"
    by code_simp
  have m: "(0xE3 :: byte) \<noteq> 0xFF" by simp
  have n: "(0::int) + 9999 \<notin> {3, 6, 7, 8, 11, 12, 14, 15, 17, 20, 23, 27, 28, 35, 39, 60}"
    by simp
  from decode_registry [of _ "0xE3" "[0x26, 0x02, 1, 2, 3]" 9999 "[1, 2, 3]" 3 "[1, 2, 3]" 0 "[]"]
    d l m n
  have "decode_entry 0 [0xE3, 0x26, 0x02, 1, 2, 3]
          = Inr (OpaqueOption (0 + 9999) (take (nat 3) [1, 2, 3]), drop (nat 3) [1, 2, 3])"
    and "decode_loop 0 [] [0xE3, 0x26, 0x02, 1, 2, 3]
          = decode_loop (0 + 9999) (addOption [] (OpaqueOption (0 + 9999) (take (nat 3) [1, 2, 3])))
              (drop (nat 3) [1, 2, 3])"
    by blast+
  then show ?thesis
    by (simp add: decode_def decode_loop_empty addOption_def)
qed

subsection \<open>Accessors of the path-like options\<close>

lemma map_of_setdefault_append:
  "map_of (setdefault_append d k x) k' =
     (if k' = k then Some ((case map_of d k of None \<Rightarrow> [] | Some b \<Rightarrow> b) @ [x]) else map_of d k')"
  by (induction d) auto

lemma getOption_addOption:
  "getOption (addOption opts opt) k =
     (if k = number opt then Some (bucket_of opts (number opt) @ [opt]) else getOption opts k)"
  by (simp add: getOption_def addOption_def bucket_of_def map_of_setdefault_append)

lemma map_of_filter_key:
  "map_of (filter (\<lambda>(k, bucket). k \<noteq> n) d) k' = (if k' = n then None else map_of d k')"
  by (induction d) auto

lemma getOption_deleteOption:
  "getOption (deleteOption opts n) k = (if k = n then None else getOption opts k)"
  by (auto simp: getOption_def deleteOption_def map_of_filter_key)

lemma bucket_of_addOption:
  "bucket_of (addOption opts opt) k =
     (if k = number opt then bucket_of opts k @ [opt] else bucket_of opts k)"
  by (simp add: bucket_of_def getOption_addOption)

lemma bucket_of_deleteOption:
  "bucket_of (deleteOption opts n) k = (if k = n then [] else bucket_of opts k)"
  by (simp add: bucket_of_def getOption_deleteOption)

lemma bucket_of_add_segments:
  "bucket_of (add_segments n ss opts) k =
     (if k = n then bucket_of opts n @ map (StringOption n) ss else bucket_of opts k)"
  unfolding add_segments_def
  by (induction ss arbitrary: opts) (simp_all add: bucket_of_addOption)

lemma getOption_add_segments:
  "getOption (add_segments n ss opts) k =
     (if k = n \<and> ss \<noteq> [] then Some (bucket_of opts n @ map (StringOption n) ss)
      else getOption opts k)"
  unfolding add_segments_def
proof (induction ss arbitrary: opts)
  case Nil
  show ?case by simp
next
  case (Cons s ss)
  show ?case
    by (simp add: Cons.IH getOption_addOption bucket_of_addOption)
qed

lemma set_path_like:
  "getOption (add_segments n ss (deleteOption opts n)) k =
     (if k = n then (if ss = [] then None else Some (map (StringOption n) ss))
      else getOption opts k)"
  by (simp add: getOption_add_segments getOption_deleteOption bucket_of_deleteOption)

lemma segment_list_strings:
  "segment_list (if ss = [] then None else Some (map (StringOption n) ss)) = map StrValue ss"
  by (simp add: segment_list_def comp_def)

text \<open>
  C8.  Each of the setters of Uri-Path, Uri-Query and Location-Path raises ValueError
  when it is given a string.  Given a sequence of segments it returns, and the bucket of
  its number then holds exactly one StringOption for each segment, in the order of the
  sequence (no bucket for an empty sequence), whatever the bucket held before; the
  getter returns the segments, and the buckets of the other numbers are unchanged.
\<close>

theorem path_setters:
  "setUriPath c (Basestring s) opts = Inl ValueError \<and>
   setUriQuery c (Basestring s) opts = Inl ValueError \<and>
   setLocationPath c (Basestring s) opts = Inl ValueError \<and>
   (\<exists>opts'. setUriPath c (Segments ss) opts = Inr opts' \<and>
      getOption opts' (URI_PATH c) =
        (if ss = [] then None else Some (map (StringOption (URI_PATH c)) ss)) \<and>
      getUriPath c opts' = map StrValue ss \<and>
      (\<forall>k. k \<noteq> URI_PATH c \<longrightarrow> getOption opts' k = getOption opts k)) \<and>
   (\<exists>opts'. setUriQuery c (Segments ss) opts = Inr opts' \<and>
      getOption opts' (URI_QUERY c) =
        (if ss = [] then None else Some (map (StringOption (URI_QUERY c)) ss)) \<and>
      getUriQuery c opts' = map StrValue ss \<and>
      (\<forall>k. k \<noteq> URI_QUERY c \<longrightarrow> getOption opts' k = getOption opts k)) \<and>
   (\<exists>opts'. setLocationPath c (Segments ss) opts = Inr opts' \<and>
      getOption opts' (LOCATION_PATH c) =
        (if ss = [] then None else Some (map (StringOption (LOCATION_PATH c)) ss)) \<and>
      getLocationPath c opts' = map StrValue ss \<and>
      (\<forall>k. k \<noteq> LOCATION_PATH c \<longrightarrow> getOption opts' k = getOption opts k))"
  by (simp add: setUriPath_def setUriQuery_def setLocationPath_def
        getUriPath_def getUriQuery_def getLocationPath_def set_path_like segment_list_strings)

theorem path_setters_witness:
  "setUriPath \<lparr>URI_PATH = 11, URI_QUERY = 15, LOCATION_PATH = 8, BLOCK1 = 27, BLOCK2 = 23,
      CONTENT_FORMAT = 12, ETAG = 4, OBSERVE = 6, ACCEPT = 17\<rparr> (Segments [[97], [98]])
      [(11, [StringOption 11 [120]]), (12, [UintOption 12 (Some 40)])]
     = Inr [(12, [UintOption 12 (Some 40)]), (11, [StringOption 11 [97], StringOption 11 [98]])] \<and>
   getOption [(12, [UintOption 12 (Some 40)]), (11, [StringOption 11 [97], StringOption 11 [98]])] 12
     = getOption [(11, [StringOption 11 [120]]), (12, [UintOption 12 (Some 40)])] 12"
proof -
  let ?c = "\<lparr>URI_PATH = 11, URI_QUERY = 15, LOCATION_PATH = 8, BLOCK1 = 27, BLOCK2 = 23,
      CONTENT_FORMAT = 12, ETAG = 4, OBSERVE = 6, ACCEPT = 17\<rparr>"
  let ?opts = "[(11, [StringOption 11 [120]]), (12, [UintOption 12 (Some 40)])]"
  have e: "setUriPath ?c (Segments [[97], [98]]) ?opts
     = Inr [(12, [UintOption 12 (Some 40)]), (11, [StringOption 11 [97], StringOption 11 [98]])]"
    by (simp add: setUriPath_def add_segments_def deleteOption_def addOption_def)
  from path_setters [of ?c _ ?opts "[[97], [98]]"]
  obtain opts' where o: "setUriPath ?c (Segments [[97], [98]]) ?opts = Inr opts'"
      "\<forall>k. k \<noteq> URI_PATH ?c \<longrightarrow> getOption opts' k = getOption ?opts k"
    by blast
  have "(12::int) \<noteq> URI_PATH ?c" by simp
  with o(2) have "getOption opts' 12 = getOption ?opts 12" by blast
  moreover from o(1) e
  have "opts' = [(12, [UintOption 12 (Some 40)]), (11, [StringOption 11 [97], StringOption 11 [98]])]"
    by (simp only: sum.inject)
  ultimately show ?thesis using e by simp
qed

subsection \<open>Accessors of the unsigned integer options\<close>

lemma first_value_single: "first_value (Some [opt]) = Inr (value_of opt)"
  by (simp add: first_value_def)

lemma first_value_None: "first_value None = Inr NoneValue"
  by (simp add: first_value_def)

lemma getOption_replace:
  "number opt = n \<Longrightarrow> getOption (addOption (deleteOption opts n) opt) n = Some [opt]"
  by (simp add: getOption_addOption bucket_of_deleteOption)

text \<open>
  What the accessors of Observe, Accept and Content-Format do: the setters of Observe and
  Accept with \<open>None\<close> remove the bucket and the getter then returns \<open>None\<close>; each of the
  three setters with a value leaves exactly one UintOption in the bucket and the getter
  returns the value; the setter of Content-Format with \<open>None\<close> leaves one UintOption
  whose value is \<open>None\<close>, which the getter returns.
\<close>

lemma uint_accessors:
  "getOption (setObserve c None opts) (OBSERVE c) = None \<and>
   getObserve c (setObserve c None opts) = Inr NoneValue \<and>
   getOption (setObserve c (Some v) opts) (OBSERVE c) = Some [UintOption (OBSERVE c) (Some v)] \<and>
   getObserve c (setObserve c (Some v) opts) = Inr (IntValue v) \<and>
   getOption (setAccept c None opts) (ACCEPT c) = None \<and>
   getAccept c (setAccept c None opts) = Inr NoneValue \<and>
   getOption (setAccept c (Some v) opts) (ACCEPT c) = Some [UintOption (ACCEPT c) (Some v)] \<and>
   getAccept c (setAccept c (Some v) opts) = Inr (IntValue v) \<and>
   getOption (setContentFormat c (Some v) opts) (CONTENT_FORMAT c)
     = Some [UintOption (CONTENT_FORMAT c) (Some v)] \<and>
   getContentFormat c (setContentFormat c (Some v) opts) = Inr (IntValue v) \<and>
   getOption (setContentFormat c None opts) (CONTENT_FORMAT c)
     = Some [UintOption (CONTENT_FORMAT c) None] \<and>
   getContentFormat c (setContentFormat c None opts) = Inr NoneValue"
  by (simp add: setObserve_def getObserve_def setAccept_def getAccept_def
        setContentFormat_def getContentFormat_def getOption_replace getOption_deleteOption
        first_value_single first_value_None)

text \<open>
  C9.  The claim is that the setter of a single-valued UInt option called with \<open>None\<close>
  removes the bucket of its number.  The setter of Content-Format has no test for
  \<open>None\<close>, unlike the setters of Observe and Accept: called with \<open>None\<close> on the empty
  option set it leaves a bucket with one UintOption whose value is \<open>None\<close>, and \<open>encode\<close>
  of that option set raises struct.error.
\<close>

theorem content_format_None_keeps_bucket:
  "getOption (setContentFormat \<lparr>URI_PATH = 11, URI_QUERY = 15, LOCATION_PATH = 8, BLOCK1 = 27,
      BLOCK2 = 23, CONTENT_FORMAT = 12, ETAG = 4, OBSERVE = 6, ACCEPT = 17\<rparr> None []) 12
     = Some [UintOption 12 None] \<and>
   encode (setContentFormat \<lparr>URI_PATH = 11, URI_QUERY = 15, LOCATION_PATH = 8, BLOCK1 = 27,
      BLOCK2 = 23, CONTENT_FORMAT = 12, ETAG = 4, OBSERVE = 6, ACCEPT = 17\<rparr> None [])
     = Inl StructError"
  by code_simp

subsection \<open>The invariant of the option set\<close>

lemma keys_setdefault_append:
  "map fst (setdefault_append d k x) =
     (if k \<in> set (map fst d) then map fst d else map fst d @ [k])"
proof (induction d)
  case Nil
  show ?case by simp
next
  case (Cons e d)
  obtain k' b where e: "e = (k', b)" by (cases e)
  show ?case
  proof (cases "k' = k")
    case True
    then show ?thesis by (simp add: e)
  next
    case False
    then have "k \<in> set (map fst (e # d)) \<longleftrightarrow> k \<in> set (map fst d)"
      by (auto simp: e)
    with False Cons.IH show ?thesis by (simp add: e)
  qed
qed

lemma distinct_setdefault_append:
  "distinct (map fst d) \<Longrightarrow> distinct (map fst (setdefault_append d k x))"
  by (simp add: keys_setdefault_append)

lemma buckets_setdefault_append:
  assumes "\<forall>(n, bucket) \<in> set d. bucket \<noteq> [] \<and> (\<forall>opt \<in> set bucket. number opt = n)"
    and "number x = k"
  shows "\<forall>(n, bucket) \<in> set (setdefault_append d k x).
           bucket \<noteq> [] \<and> (\<forall>opt \<in> set bucket. number opt = n)"
  using assms
proof (induction d)
  case Nil
  then show ?case by simp
next
  case (Cons e d)
  obtain k' b where e: "e = (k', b)" by (cases e)
  from Cons.prems(1) have hd: "b \<noteq> [] \<and> (\<forall>opt \<in> set b. number opt = k')"
    and tl: "\<forall>(n, bucket) \<in> set d. bucket \<noteq> [] \<and> (\<forall>opt \<in> set bucket. number opt = n)"
    by (simp_all add: e)
  show ?case
  proof (cases "k' = k")
    case True
    with hd tl Cons.prems(2) show ?thesis by (simp add: e)
  next
    case False
    with hd Cons.IH [OF tl Cons.prems(2)] show ?thesis by (simp add: e)
  qed
qed

lemma well_formed_empty: "well_formed []"
  by (simp add: well_formed_def)

lemma well_formed_addOption: "well_formed opts \<Longrightarrow> well_formed (addOption opts opt)"
  unfolding well_formed_def addOption_def
  using distinct_setdefault_append [of opts "number opt" opt]
    buckets_setdefault_append [of opts opt "number opt"]
  by blast

lemma well_formed_deleteOption: "well_formed opts \<Longrightarrow> well_formed (deleteOption opts n)"
  by (auto simp: well_formed_def deleteOption_def distinct_map_filter)

lemma well_formed_decode_loop:
  "well_formed opts \<Longrightarrow> well_formed (fst (decode_loop n opts rawdata))"
proof (induction n opts rawdata rule: decode_loop.induct)
  case (1 n opts rawdata)
  show ?case
  proof (cases "length rawdata > 0 \<and> ord_py (hd rawdata) \<noteq> 0xFF")
    case False
    with 1(2) show ?thesis by (auto simp: decode_loop.simps [of n opts rawdata])
  next
    case True
    show ?thesis
    proof (cases "decode_entry n rawdata")
      case (Inl e)
      with True 1(2) show ?thesis by (simp add: decode_loop_error)
    next
      case (Inr p)
      obtain opt rest where p: "p = (opt, rest)" by (cases p)
      have "well_formed (fst (decode_loop (number opt) (addOption opts opt) rest))"
        using 1(1) [of "(opt, rest)" opt rest] True Inr p well_formed_addOption [OF 1(2)]
        by simp
      then show ?thesis
        using True Inr p by (simp add: decode_loop_pass)
    qed
  qed
qed

lemma well_formed_decode: "well_formed opts \<Longrightarrow> well_formed (fst (decode opts rawdata))"
  by (simp add: decode_def well_formed_decode_loop)

lemma well_formed_foldl_add:
  "well_formed opts \<Longrightarrow> well_formed (foldl (\<lambda>opts x. addOption opts (f x)) opts xs)"
  by (induction xs arbitrary: opts) (simp_all add: well_formed_addOption)

lemma well_formed_add_segments: "well_formed opts \<Longrightarrow> well_formed (add_segments n ss opts)"
  unfolding add_segments_def by (rule well_formed_foldl_add)

lemma reachable_well_formed: "reachable c opts \<Longrightarrow> well_formed opts"
proof (induction rule: reachable.induct)
  case init
  show ?case by (rule well_formed_empty)
next
  case (uri_path opts segs opts')
  then show ?case
    by (auto simp: setUriPath_def well_formed_add_segments well_formed_deleteOption
        split: segments.splits)
next
  case (uri_query opts segs opts')
  then show ?case
    by (auto simp: setUriQuery_def well_formed_add_segments well_formed_deleteOption
        split: segments.splits)
next
  case (location_path opts segs opts')
  then show ?case
    by (auto simp: setLocationPath_def well_formed_add_segments well_formed_deleteOption
        split: segments.splits)
next
  case (etags opts tags)
  then show ?case
    unfolding setETags_def by (intro well_formed_foldl_add well_formed_deleteOption)
qed (auto simp: well_formed_addOption well_formed_deleteOption well_formed_decode
      setBlock1_def setBlock2_def setContentFormat_def setETag_def setObserve_def setAccept_def
      split: option.splits)

lemma insort_key_map:
  assumes "\<forall>y \<in> set (x # ys). f (g y) = h y"
  shows "insort_key f (g x) (map g ys) = map g (insort_key h x ys)"
  using assms by (induction ys) auto

lemma sort_key_map:
  assumes "\<forall>y \<in> set xs. f (g y) = h y"
  shows "sort_key f (map g xs) = map g (sort_key h xs)"
  using assms
proof (induction xs)
  case Nil
  show ?case by simp
next
  case (Cons x xs)
  then have "sort_key f (map g xs) = map g (sort_key h xs)" by simp
  moreover have "\<forall>y \<in> set (x # sort_key h xs). f (g y) = h y"
    using Cons.prems by simp
  ultimately show ?case
    by (simp add: insort_key_map [of x "sort_key h xs" f g h])
qed

lemma distinct_keys_sort_key:
  "distinct (map f xs) \<Longrightarrow> distinct (map f (sort_key f xs))"
  by (induction xs) (auto simp: distinct_insort_key)

lemma optionList_well_formed:
  assumes "well_formed opts"
  shows "optionList opts = Inr (concat (map snd (sort_key fst opts)))"
proof -
  have ne: "\<not> (\<exists>bucket \<in> set (map snd opts). bucket = [])"
    using assms by (auto simp: well_formed_def)
  have "\<forall>y \<in> set opts. number (hd (snd y)) = fst y"
    using assms by (auto simp: well_formed_def)
  then have "sort_key (\<lambda>x. number (hd x)) (map snd opts) = map snd (sort_key fst opts)"
    by (rule sort_key_map)
  with ne show ?thesis by (simp add: optionList_def)
qed

text \<open>
  C10.  Every option set reachable from the empty one by \<open>addOption\<close>, \<open>deleteOption\<close>,
  \<open>decode\<close> and the setters has no empty bucket, has in the bucket of a number only
  options with that number, and has one bucket for each number.  Consequently
  \<open>optionList\<close> does not raise and yields the buckets one after the other, in strictly
  ascending order of their numbers.
\<close>

theorem reachable_invariant:
  assumes "reachable c opts"
  shows "(\<forall>(n, bucket) \<in> set opts. bucket \<noteq> [] \<and> (\<forall>opt \<in> set bucket. number opt = n)) \<and>
         distinct (map fst opts) \<and>
         (\<forall>n \<in> fst ` set opts. getOption opts n \<noteq> None \<and> getOption opts n \<noteq> Some []) \<and>
         (\<forall>n bucket. getOption opts n = Some bucket \<longrightarrow>
            bucket \<noteq> [] \<and> (\<forall>opt \<in> set bucket. number opt = n)) \<and>
         (\<exists>groups. optionList opts = Inr (concat (map snd groups)) \<and>
            set groups = set opts \<and>
            sorted_wrt (<) (map fst groups) \<and>
            (\<forall>(n, bucket) \<in> set groups. bucket \<noteq> [] \<and> (\<forall>opt \<in> set bucket. number opt = n)))"
proof -
  have wf: "well_formed opts" using assms by (rule reachable_well_formed)
  then have b: "\<forall>(n, bucket) \<in> set opts. bucket \<noteq> [] \<and> (\<forall>opt \<in> set bucket. number opt = n)"
    and d: "distinct (map fst opts)"
    by (simp_all add: well_formed_def)
  have g: "bucket \<noteq> [] \<and> (\<forall>opt \<in> set bucket. number opt = n)"
    if "getOption opts n = Some bucket" for n bucket
  proof -
    from that have "(n, bucket) \<in> set opts"
      by (simp add: getOption_def map_of_SomeD)
    with b show ?thesis by blast
  qed
  have k: "getOption opts n \<noteq> None \<and> getOption opts n \<noteq> Some []" if "n \<in> fst ` set opts" for n
  proof -
    from that have "getOption opts n \<noteq> None"
      by (simp add: getOption_def map_of_eq_None_iff)
    then show ?thesis using g by auto
  qed
  define groups where "groups = sort_key fst opts"
  have 1: "optionList opts = Inr (concat (map snd groups))"
    unfolding groups_def using wf by (rule optionList_well_formed)
  have 2: "set groups = set opts" by (simp add: groups_def)
  have 3: "sorted_wrt (<) (map fst groups)"
    unfolding groups_def strict_sorted_iff using d by (simp add: distinct_keys_sort_key)
  from 1 2 3 b have "\<exists>groups. optionList opts = Inr (concat (map snd groups)) \<and>
            set groups = set opts \<and>
            sorted_wrt (<) (map fst groups) \<and>
            (\<forall>(n, bucket) \<in> set groups. bucket \<noteq> [] \<and> (\<forall>opt \<in> set bucket. number opt = n))"
    by (intro exI [of _ groups]) simp
  with b d g k show ?thesis by blast
qed

theorem reachable_invariant_witness:
  "reachable \<lparr>URI_PATH = 11, URI_QUERY = 15, LOCATION_PATH = 8, BLOCK1 = 27, BLOCK2 = 23,
      CONTENT_FORMAT = 12, ETAG = 4, OBSERVE = 6, ACCEPT = 17\<rparr>
     [(12, [UintOption 12 (Some 40)]), (11, [StringOption 11 [97], StringOption 11 [98]])] \<and>
   distinct (map fst ([(12, [UintOption 12 (Some 40)]),
                       (11, [StringOption 11 [97], StringOption 11 [98]])] :: options)) \<and>
   optionList [(12, [UintOption 12 (Some 40)]), (11, [StringOption 11 [97], StringOption 11 [98]])]
     = Inr [StringOption 11 [97], StringOption 11 [98], UintOption 12 (Some 40)]"
proof -
  let ?c = "\<lparr>URI_PATH = 11, URI_QUERY = 15, LOCATION_PATH = 8, BLOCK1 = 27, BLOCK2 = 23,
      CONTENT_FORMAT = 12, ETAG = 4, OBSERVE = 6, ACCEPT = 17\<rparr>"
  let ?opts = "[(12, [UintOption 12 (Some 40)]),
                (11, [StringOption 11 [97], StringOption 11 [98]])] :: options"
  have s: "setUriPath ?c (Segments [[97], [98]]) (setContentFormat ?c (Some 40) []) = Inr ?opts"
    by (simp add: setUriPath_def setContentFormat_def add_segments_def deleteOption_def
          addOption_def)
  have "reachable ?c (setContentFormat ?c (Some 40) [])"
    by (intro reachable.content_format reachable.init)
  then have r: "reachable ?c ?opts"
    using s by (rule reachable.uri_path)
  have l: "optionList ?opts
     = Inr [StringOption 11 [97], StringOption 11 [98], UintOption 12 (Some 40)]"
    by code_simp
  have d: "distinct (map fst ?opts)"
    by (rule reachable_invariant [OF r, THEN conjunct2, THEN conjunct1])
  from r d l show ?thesis by (intro conjI)
qed

subsection \<open>Values out of range in the encoder\<close>

lemma writeExtendedFieldValue_fails_iff:
  "writeExtendedFieldValue v = Inl ValueError \<longleftrightarrow> v < 0 \<or> v \<ge> 65804"
  by (auto simp: writeExtendedFieldValue_def pack_B_def pack_H_def)

lemma writeExtendedFieldValue_error:
  "writeExtendedFieldValue v = Inl e \<Longrightarrow> e = ValueError \<and> (v < 0 \<or> v \<ge> 65804)"
  by (auto simp: writeExtendedFieldValue_def pack_B_def pack_H_def split: if_splits)

lemma writeExtendedFieldValue_succeeds:
  "0 \<le> v \<Longrightarrow> v \<le> 65803 \<Longrightarrow> \<exists>nibble ext. writeExtendedFieldValue v = Inr (nibble, ext)"
  by (auto simp: writeExtendedFieldValue_def pack_B_def pack_H_def)

lemma chr_py_error: "chr_py i = Inl e \<Longrightarrow> e = ValueError"
  by (auto simp: chr_py_def split: if_splits)

lemma encode_loop_exceeds_fails:
  "exceeds cur os \<Longrightarrow> \<exists>e. encode_loop data cur os = Inl e"
proof (induction os arbitrary: data cur)
  case Nil
  then show ?case by simp
next
  case (Cons opt os)
  show ?case
  proof (cases "writeExtendedFieldValue (number opt - cur)")
    case (Inl e)
    then show ?thesis by simp
  next
    case d: (Inr dp)
    obtain delta ed where dp: "dp = (delta, ed)" by (cases dp)
    have nd: "\<not> number opt - cur > 65803"
      using d by (auto simp: writeExtendedFieldValue_def split: if_splits)
    show ?thesis
    proof (cases "writeExtendedFieldValue (Option_length opt)")
      case (Inl e)
      with d dp show ?thesis by simp
    next
      case l: (Inr lp)
      obtain len el where lp: "lp = (len, el)" by (cases lp)
      have nl: "\<not> Option_length opt > 65803"
        using l by (auto simp: writeExtendedFieldValue_def split: if_splits)
      from Cons.prems nd nl have ex: "exceeds (number opt) os" by simp
      show ?thesis
      proof (cases "chr_py (push_bit 4 (delta AND 0x0F) + (len AND 0x0F))")
        case (Inl e)
        with d dp l lp show ?thesis by simp
      next
        case h: (Inr header)
        show ?thesis
        proof (cases "Option_encode opt")
          case (Inl e)
          with d dp l lp h show ?thesis by simp
        next
          case (Inr v)
          from Cons.IH [OF ex, of "data @ [header] @ ed @ el @ v"]
          show ?thesis using d dp l lp h Inr by simp
        qed
      qed
    qed
  qed
qed

lemma encode_loop_exceeds_ValueError:
  "exceeds cur os \<Longrightarrow> \<forall>opt \<in> set os. \<exists>v. Option_encode opt = Inr v \<Longrightarrow>
   encode_loop data cur os = Inl ValueError"
proof (induction os arbitrary: data cur)
  case Nil
  then show ?case by simp
next
  case (Cons opt os)
  obtain v where v: "Option_encode opt = Inr v" using Cons.prems(2) by auto
  have rest: "\<forall>opt \<in> set os. \<exists>v. Option_encode opt = Inr v" using Cons.prems(2) by simp
  show ?case
  proof (cases "writeExtendedFieldValue (number opt - cur)")
    case (Inl e)
    then show ?thesis using writeExtendedFieldValue_error [OF Inl] by simp
  next
    case d: (Inr dp)
    obtain delta ed where dp: "dp = (delta, ed)" by (cases dp)
    have nd: "\<not> number opt - cur > 65803"
      using d by (auto simp: writeExtendedFieldValue_def split: if_splits)
    show ?thesis
    proof (cases "writeExtendedFieldValue (Option_length opt)")
      case (Inl e)
      with d dp show ?thesis using writeExtendedFieldValue_error [OF Inl] by simp
    next
      case l: (Inr lp)
      obtain len el where lp: "lp = (len, el)" by (cases lp)
      have nl: "\<not> Option_length opt > 65803"
        using l by (auto simp: writeExtendedFieldValue_def split: if_splits)
      from Cons.prems(1) nd nl have ex: "exceeds (number opt) os" by simp
      show ?thesis
      proof (cases "chr_py (push_bit 4 (delta AND 0x0F) + (len AND 0x0F))")
        case (Inl e)
        with d dp l lp show ?thesis using chr_py_error [OF Inl] by simp
      next
        case h: (Inr header)
        from Cons.IH [OF ex rest, of "data @ [header] @ ed @ el @ v"]
        show ?thesis using d dp l lp h v by simp
      qed
    qed
  qed
qed

lemma data_model_value_encodes:
  assumes "data_model_value opt"
  shows "\<exists>bs. Option_encode opt = Inr bs"
proof (cases opt)
  case (OpaqueOption n v)
  then show ?thesis by simp
next
  case (StringOption n v)
  then show ?thesis by simp
next
  case (UintOption n v)
  with assms obtain i where "v = Some i" "0 \<le> i" "i < 4294967296"
    by (cases v) auto
  with UintOption show ?thesis by (simp add: pack_L_def)
next
  case (BlockOption n v)
  with assms have r: "0 \<le> num v" "num v < 268435456" "0 \<le> szx v" "szx v < 8"
    by simp_all
  define as_integer where "as_integer = push_bit 4 (num v) + ((if m v then 1 else 0) * 0x08) + szx v"
  have "as_integer = 16 * num v + (if m v then 8 else 0) + szx v"
    by (simp add: as_integer_def push_bit_eq_mult)
  with r have "0 \<le> as_integer" "as_integer < 4294967296"
    by (simp_all split: if_splits)
  then have "\<exists>raw. pack_L as_integer = Inr raw" by (simp add: pack_L_def)
  then show ?thesis
    using BlockOption by (auto simp: Let_def as_integer_def)
qed

text \<open>
  C4.  \<open>writeExtendedFieldValue\<close> raises ValueError exactly for the integers below 0 and
  above 65803, and returns for every integer in 0..65803.  When some delta or some length
  of the options of \<open>optionList\<close> is above 65803, \<open>encode\<close> raises; the exception is
  ValueError when the value of every option can be encoded, so that no struct.error of
  an earlier option comes first, and so it is for every option set whose values are
  values of the data model.
\<close>

theorem encode_out_of_range:
  "(writeExtendedFieldValue v = Inl ValueError \<longleftrightarrow> v < 0 \<or> v \<ge> 65804) \<and>
   (0 \<le> v \<and> v \<le> 65803 \<longrightarrow> (\<exists>nibble ext. writeExtendedFieldValue v = Inr (nibble, ext))) \<and>
   (optionList opts = Inr option_list \<and> exceeds 0 option_list \<longrightarrow>
      (\<exists>e. encode opts = Inl e)) \<and>
   (optionList opts = Inr option_list \<and> exceeds 0 option_list \<and>
    (\<forall>opt \<in> set option_list. \<exists>bs. Option_encode opt = Inr bs) \<longrightarrow>
      encode opts = Inl ValueError) \<and>
   (optionList opts = Inr option_list \<and> exceeds 0 option_list \<and>
    (\<forall>opt \<in> set option_list. data_model_value opt) \<longrightarrow>
      encode opts = Inl ValueError)"
proof (intro conjI impI)
  show "writeExtendedFieldValue v = Inl ValueError \<longleftrightarrow> v < 0 \<or> v \<ge> 65804"
    by (rule writeExtendedFieldValue_fails_iff)
next
  assume "0 \<le> v \<and> v \<le> 65803"
  then show "\<exists>nibble ext. writeExtendedFieldValue v = Inr (nibble, ext)"
    using writeExtendedFieldValue_succeeds by blast
next
  assume a: "optionList opts = Inr option_list \<and> exceeds 0 option_list"
  then show "\<exists>e. encode opts = Inl e"
    using encode_loop_exceeds_fails [of 0 option_list "[]"] by (simp add: encode_def)
next
  assume a: "optionList opts = Inr option_list \<and> exceeds 0 option_list \<and>
    (\<forall>opt \<in> set option_list. \<exists>bs. Option_encode opt = Inr bs)"
  then show "encode opts = Inl ValueError"
    using encode_loop_exceeds_ValueError [of 0 option_list "[]"] by (simp add: encode_def)
next
  assume a: "optionList opts = Inr option_list \<and> exceeds 0 option_list \<and>
    (\<forall>opt \<in> set option_list. data_model_value opt)"
  then have "\<forall>opt \<in> set option_list. \<exists>bs. Option_encode opt = Inr bs"
    using data_model_value_encodes by blast
  with a show "encode opts = Inl ValueError"
    using encode_loop_exceeds_ValueError [of 0 option_list "[]"] by (simp add: encode_def)
qed

theorem encode_out_of_range_witness:
  "optionList [(12, [UintOption 12 (Some 40)]), (70000, [OpaqueOption 70000 [1]])]
     = Inr [UintOption 12 (Some 40), OpaqueOption 70000 [1]] \<and>
   exceeds 0 [UintOption 12 (Some 40), OpaqueOption 70000 [1]] \<and>
   encode [(12, [UintOption 12 (Some 40)]), (70000, [OpaqueOption 70000 [1]])] = Inl ValueError \<and>
   writeExtendedFieldValue 65804 = Inl ValueError"
proof -
  let ?opts = "[(12, [UintOption 12 (Some 40)]), (70000, [OpaqueOption 70000 [1]])]"
  let ?os = "[UintOption 12 (Some 40), OpaqueOption 70000 [1]]"
  have l: "optionList ?opts = Inr ?os" by code_simp
  have x: "exceeds 0 ?os" by code_simp
  have v: "\<forall>opt \<in> set ?os. data_model_value opt"
    by simp
  have t: "optionList ?opts = Inr ?os \<and> exceeds 0 ?os \<and>
           (\<forall>opt \<in> set ?os. data_model_value opt)"
    using l x v by (intro conjI)
  note th = encode_out_of_range [of 65804 ?opts ?os]
  have e: "encode ?opts = Inl ValueError"
    using th [THEN conjunct2, THEN conjunct2, THEN conjunct2, THEN conjunct2] t by (rule mp)
  have f: "writeExtendedFieldValue 65804 = Inl ValueError"
    using th [THEN conjunct1] by simp
  from l x e f show ?thesis by (intro conjI)
qed

end
